theory Spec2Isabelle
  imports Main "HOL-Library.Sublist" "HOL-Library.Word"
begin

unbundle bit_operations_syntax

section \<open>The stream demultiplexer: \<open>filterStreamByTarget\<close>\<close>

text \<open>
  The source builds \<^verbatim>\<open>new RegExp(`${targetPosition}[0d]:[^\\n]*`, 'g')\<close> and returns
  \<^verbatim>\<open>chunk.match(pattern)\<close> joined with newlines, or \<^verbatim>\<open>null\<close>.
  The target is read literally, which is what the regular expression does for a target
  free of regular-expression metacharacters, in particular for \<open>a\<close> and \<open>b\<close>. A string is
  the list of its code units.
\<close>

definition newline :: char where
  "newline = CHR 0x0A"

text \<open>The fixed head of the pattern, \<^verbatim>\<open>${targetPosition}[0d]:\<close>, matches at the front of \<open>s\<close>.\<close>

definition tagged :: "string \<Rightarrow> string \<Rightarrow> bool" where
  "tagged t s = (prefix (t @ ''0:'') s \<or> prefix (t @ ''d:'') s)"

text \<open>
  One attempt of the pattern at the front of \<open>s\<close>: the head, then the greedy
  \<^verbatim>\<open>[^\n]*\<close>, which takes everything up to the next newline.
\<close>

definition exec_at :: "string \<Rightarrow> string \<Rightarrow> string option" where
  "exec_at t s =
     (if tagged t s
      then Some (take (length t + 2) s @ takeWhile (\<lambda>c. c \<noteq> newline) (drop (length t + 2) s))
      else None)"

lemma exec_at_length:
  "exec_at t s = Some m \<Longrightarrow> 0 < length m \<and> length m \<le> length s"
proof -
  assume a: "exec_at t s = Some m"
  then have tg: "tagged t s"
    by (simp add: exec_at_def split: if_splits)
  then have ge: "length t + 2 \<le> length s"
    by (auto simp: tagged_def dest: prefix_length_le)
  from a tg have m: "m = take (length t + 2) s @ takeWhile (\<lambda>c. c \<noteq> newline) (drop (length t + 2) s)"
    by (simp add: exec_at_def)
  have "length (takeWhile (\<lambda>c. c \<noteq> newline) (drop (length t + 2) s)) \<le> length s - (length t + 2)"
    using length_takeWhile_le [of "\<lambda>c. c \<noteq> newline" "drop (length t + 2) s"] by simp
  with ge m show ?thesis by simp
qed

text \<open>
  \<^verbatim>\<open>String.prototype.match\<close> with the \<^verbatim>\<open>g\<close> flag: the matches from left to right, each
  search resuming where the previous match ended.
\<close>

function match_all :: "string \<Rightarrow> string \<Rightarrow> string list" where
  "match_all t s =
     (case exec_at t s of
        Some m \<Rightarrow> m # match_all t (drop (length m) s)
      | None \<Rightarrow> (case s of [] \<Rightarrow> [] | c # cs \<Rightarrow> match_all t cs))"
  by pat_completeness auto
termination
proof (relation "measure (\<lambda>(t, s). length s)")
  fix t s m
  assume "exec_at t s = Some m"
  then have "0 < length m \<and> length m \<le> length s"
    by (rule exec_at_length)
  then have "length s - length m < length s"
    by arith
  then show "((t, drop (length m) s), (t, s)) \<in> measure (\<lambda>(t, s). length s)"
    by simp
qed auto

declare match_all.simps [simp del]

text \<open>\<^verbatim>\<open>Array.prototype.join\<close>.\<close>

fun join :: "string \<Rightarrow> string list \<Rightarrow> string" where
  "join sep [] = []"
| "join sep [x] = x"
| "join sep (x # y # ys) = x @ sep @ join sep (y # ys)"

definition filterStreamByTarget :: "string \<Rightarrow> string \<Rightarrow> string option" where
  "filterStreamByTarget chunk targetPosition =
     (let matches = match_all targetPosition chunk
      in if matches \<noteq> [] then Some (join [newline] matches @ [newline]) else None)"

text \<open>
  \<^verbatim>\<open>chunk.split('\n')\<close>: the newline-delimited records of a chunk, used to state what
  the demultiplexer returns.
\<close>

fun split_lines :: "string \<Rightarrow> string list" where
  "split_lines [] = [[]]"
| "split_lines (c # cs) =
     (if c = newline then [] # split_lines cs
      else (case split_lines cs of [] \<Rightarrow> [[c]] | l # ls \<Rightarrow> (c # l) # ls))"

text \<open>The head of the pattern matches somewhere in \<open>s\<close>.\<close>

fun occurs :: "string \<Rightarrow> string \<Rightarrow> bool" where
  "occurs t [] = tagged t []"
| "occurs t (c # cs) = (tagged t (c # cs) \<or> occurs t cs)"

text \<open>
  The demultiplexer as the specification words it: the records whose leading two
  characters are the target tag followed by \<open>0\<close> or \<open>d\<close>, in order, joined with newlines,
  a trailing newline added; nothing when no record qualifies.
\<close>

definition demux_spec :: "string \<Rightarrow> string \<Rightarrow> string option" where
  "demux_spec chunk target =
     (let records = filter (\<lambda>r. prefix (target @ ''0'') r \<or> prefix (target @ ''d'') r) (split_lines chunk)
      in if records \<noteq> [] then Some (join [newline] records @ [newline]) else None)"

section \<open>The identifier generator: \<open>generateUUIDv7\<close>\<close>

text \<open>\<^verbatim>\<open>Number.prototype.toString(16)\<close> on a non-negative integer.\<close>

definition hexdigit :: "nat \<Rightarrow> char" where
  "hexdigit n = ''0123456789abcdef'' ! n"

fun toString16 :: "nat \<Rightarrow> string" where
  "toString16 n = (if n < 16 then [hexdigit n] else toString16 (n div 16) @ [hexdigit (n mod 16)])"

declare toString16.simps [simp del]

definition padStart :: "nat \<Rightarrow> char \<Rightarrow> string \<Rightarrow> string" where
  "padStart n c s = replicate (n - length s) c @ s"

text \<open>\<^verbatim>\<open>String.prototype.substring\<close>: the arguments are swapped when out of order, and
  both are cut to the length of the string (as \<^const>\<open>take\<close> and \<^const>\<open>drop\<close> do).\<close>

definition substring :: "nat \<Rightarrow> nat \<Rightarrow> string \<Rightarrow> string" where
  "substring i j s = take (max i j - min i j) (drop (min i j) s)"

text \<open>A byte as two hexadecimal digits: \<^verbatim>\<open>b.toString(16).padStart(2, '0')\<close>.\<close>

definition hex2 :: "8 word \<Rightarrow> string" where
  "hex2 b = padStart 2 CHR ''0'' (toString16 (unat b))"

text \<open>
  The identifier built from one reading of the clock (\<^verbatim>\<open>Date.now()\<close>) and one draw of ten
  random bytes (\<^verbatim>\<open>crypto.getRandomValues(new Uint8Array(10))\<close>), the bytes given by index.
\<close>

definition uuidv7 :: "nat \<Rightarrow> (nat \<Rightarrow> 8 word) \<Rightarrow> string" where
  "uuidv7 timestamp randomBytes =
     (let timestampHex = padStart 12 CHR ''0'' (toString16 timestamp);
          part1 = substring 0 8 timestampHex;
          part2 = substring 8 12 timestampHex;
          part3 = ''7'' @ substring 1 4 (concat (map (\<lambda>i. hex2 (randomBytes i)) [0..<2]));
          variant = (randomBytes 2 AND 0x3f) OR 0x80;
          part4 = hex2 variant @ hex2 (randomBytes 3);
          part5 = concat (map (\<lambda>i. hex2 (randomBytes i)) [4..<10])
      in part1 @ ''-'' @ part2 @ ''-'' @ part3 @ ''-'' @ part4 @ ''-'' @ part5)"

text \<open>
  What an identifier keeps of the clock reading and of the random bytes: the reading itself
  (as long as it fits 48 bits), the low half of byte 0, bytes 1 and 3 to 9, and byte 2
  with its two high bits replaced by the variant.
\<close>

definition kept :: "nat \<Rightarrow> (nat \<Rightarrow> 8 word) \<Rightarrow> nat \<times> nat \<times> 8 word list" where
  "kept timestamp randomBytes =
     (timestamp, unat (randomBytes 0) mod 16,
      [randomBytes 1, (randomBytes 2 AND 0x3f) OR 0x80, randomBytes 3] @ map randomBytes [4..<10])"

text \<open>A number as \<open>k\<close> hexadecimal digits, most significant first.\<close>

fun digits :: "nat \<Rightarrow> nat \<Rightarrow> nat list" where
  "digits 0 n = []"
| "digits (Suc k) n = digits k (n div 16) @ [n mod 16]"

section \<open>Frames, requests and the page state\<close>

text \<open>
  The texts of the error frames. The two pre-flight messages are fixed strings of the
  source; a failed response status builds its message from the status and the body text;
  every other error frame carries the message of an exception raised by the runtime.
\<close>

datatype error_message =
    SessionIdEmpty
  | MessageListEmpty
  | BadResponse nat string
  | Thrown string

text \<open>The \<open>data\<close> of an outbound frame: a string, or an object \<^verbatim>\<open>{error: ...}\<close>.\<close>

datatype data = Text string | ErrorObj error_message

definition DONE :: data where
  "DONE = Text ''[DONE]''"

type_synonym frame = "string \<times> data"

text \<open>The participant positions, \<open>a\<close> and \<open>b\<close>, and the tags they are written with.\<close>

datatype position = PosA | PosB

fun tag :: "position \<Rightarrow> string" where
  "tag PosA = ''a''"
| "tag PosB = ''b''"

text \<open>
  A request: the templates of its messages and the fields of its payload. A field that
  may be missing is an option; \<open>attachments\<close> is \<open>None\<close> when it is not an array.
\<close>

record message_template =
  role :: string
  content :: string
  attachments :: "string list option"
  participantPosition :: "string option"

record payload =
  is_image_request :: bool
  message_templates :: "message_template list option"
  target_model_id :: "string option"
  session_id :: "string option"
  battle_target :: "position option"

text \<open>The messages and the body that the executor posts to the evaluation endpoint.\<close>

record message =
  message_id :: string
  evaluationSessionId :: string
  message_role :: string
  parentMessageIds :: "string list"
  message_content :: string
  experimental_attachments :: "string list"
  message_position :: string

record evaluation_body =
  body_id :: string
  body_mode :: string
  userMessageId :: string
  modelAMessageId :: string
  modelBMessageId :: string
  messages :: "message list"
  modality :: string

text \<open>
  The arguments of a call of \<^verbatim>\<open>fetch\<close>: the resource (a \<^verbatim>\<open>Request\<close>, a \<^verbatim>\<open>URL\<close>, a string
  or anything else) and the options. The options the bridge itself passes are kept
  structured; what the page passes is opaque.
\<close>

datatype resource = RequestObj string | URLObj string | Str string | OtherArg

datatype init =
    PageInit string
  | EvaluationPost evaluation_body
  | SessionUpdate string
  | PageMarkup

type_synonym fetch_args = "resource \<times> init"

text \<open>
  How a call of the real \<^verbatim>\<open>fetch\<close> settles. A response body is the finite sequence of
  chunks its reader yields, already decoded, and the way the reading ends; \<open>resp_text\<close> is
  what \<^verbatim>\<open>response.text()\<close> gives, \<open>Inl\<close> when it rejects.
\<close>

datatype stream_end = EndOfStream | ReadFailed string

record response =
  resp_ok :: bool
  resp_status :: nat
  resp_body :: "(string list \<times> stream_end) option"
  resp_text :: "string + string"

datatype fetch_outcome = Rejected string | Resolved response

text \<open>
  What the script cannot decide: the clock and the random bytes of the \<open>k\<close>-th identifier,
  and the outcome of the \<open>k\<close>-th call handed to the real \<^verbatim>\<open>fetch\<close>.
\<close>

record env =
  clock :: "nat \<Rightarrow> nat"
  entropy :: "nat \<Rightarrow> nat \<Rightarrow> 8 word"
  settle :: "nat \<Rightarrow> fetch_outcome"

text \<open>The identifier of the \<open>k\<close>-th call of the generator.\<close>

definition uuid_at :: "env \<Rightarrow> nat \<Rightarrow> string" where
  "uuid_at e k = uuidv7 (clock e k) (entropy e k)"

text \<open>
  A call received by the real \<^verbatim>\<open>fetch\<close>, with the values \<^verbatim>\<open>window.isApiBridgeRequest\<close> and
  \<^verbatim>\<open>isCaptureModeActive\<close> had at that moment.
\<close>

record net_call =
  call_args :: fetch_args
  by_bridge :: bool
  capture_armed :: bool

text \<open>
  The state of the page: the socket (open or not, and what has been written to it), the
  frames handed to \<^verbatim>\<open>sendToServer\<close>, the two flags, the calls the real \<^verbatim>\<open>fetch\<close> has received
  and the number of identifiers generated so far.
\<close>

record page =
  socket_open :: bool
  socket_out :: "frame list"
  emitted :: "frame list"
  isCaptureModeActive :: bool
  isApiBridgeRequest :: bool
  network :: "net_call list"
  uuid_calls :: nat

definition generateUUIDv7 :: "env \<Rightarrow> page \<Rightarrow> string \<times> page" where
  "generateUUIDv7 e s =
     (uuidv7 (clock e (uuid_calls s)) (entropy e (uuid_calls s)),
      s\<lparr>uuid_calls := Suc (uuid_calls s)\<rparr>)"

text \<open>
  \<^verbatim>\<open>sendToServer\<close> writes the frame to the socket when it is open and only logs otherwise;
  \<open>emitted\<close> keeps every frame it is handed.
\<close>

definition sendToServer :: "string \<Rightarrow> data \<Rightarrow> page \<Rightarrow> page" where
  "sendToServer requestId d s =
     (let s1 = s\<lparr>emitted := emitted s @ [(requestId, d)]\<rparr>
      in if socket_open s1 then s1\<lparr>socket_out := socket_out s1 @ [(requestId, d)]\<rparr> else s1)"

section \<open>The session capture interceptor: the wrapper around \<open>fetch\<close>\<close>

text \<open>The real \<^verbatim>\<open>fetch\<close>: it receives the call and returns a promise, named by the position
  of the call among those received.\<close>

definition originalFetch :: "fetch_args \<Rightarrow> page \<Rightarrow> nat \<times> page" where
  "originalFetch args s =
     (length (network s),
      s\<lparr>network := network s @
          [\<lparr>call_args = args, by_bridge = isApiBridgeRequest s,
            capture_armed = isCaptureModeActive s\<rparr>]\<rparr>)"

text \<open>
  The pattern of the interceptor,
  \<^verbatim>\<open>/\/nextjs-api\/stream\/retry-evaluation-session-message\/([a-f0-9-]+)\/messages\/([a-f0-9-]+)/\<close>,
  tried at the front of a string: the first group is the longest run of identifier
  characters, which must be followed by \<^verbatim>\<open>/messages/\<close> and one more identifier character.
\<close>

definition idchar :: "char \<Rightarrow> bool" where
  "idchar c = (c \<in> set ''abcdef0123456789-'')"

definition retry_at :: "string \<Rightarrow> string option" where
  "retry_at s =
     (let pre = ''/nextjs-api/stream/retry-evaluation-session-message/'';
          rest = drop (length pre) s;
          group1 = takeWhile idchar rest;
          rest1 = dropWhile idchar rest
      in if prefix pre s \<and> group1 \<noteq> [] \<and> prefix ''/messages/'' rest1
            \<and> (case drop 10 rest1 of [] \<Rightarrow> False | c # _ \<Rightarrow> idchar c)
         then Some group1 else None)"

text \<open>\<^verbatim>\<open>urlString.match(...)\<close>: the leftmost match; the result is its first group.\<close>

fun retry_match :: "string \<Rightarrow> string option" where
  "retry_match [] = retry_at []"
| "retry_match (c # cs) =
     (case retry_at (c # cs) of Some g \<Rightarrow> Some g | None \<Rightarrow> retry_match cs)"

definition urlString :: "fetch_args \<Rightarrow> string" where
  "urlString args =
     (case fst args of RequestObj u \<Rightarrow> u | URLObj h \<Rightarrow> h | Str x \<Rightarrow> x | OtherArg \<Rightarrow> [])"

definition update_call :: "string \<Rightarrow> fetch_args" where
  "update_call sessionId = (Str ''http://127.0.0.1:5103/update'', SessionUpdate sessionId)"

lemma update_call_no_match: "retry_match (urlString (update_call sessionId)) = None"
  by (simp add: update_call_def urlString_def retry_at_def)

text \<open>
  The wrapper installed as \<^verbatim>\<open>window.fetch\<close>. The delivery of a captured identifier calls
  \<^verbatim>\<open>fetch\<close>, which is the wrapper itself; its handlers only log. The decoration of the
  page title is left out.
\<close>

function fetch :: "fetch_args \<Rightarrow> page \<Rightarrow> nat \<times> page" where
  "fetch args s =
     (let s1 =
        (if urlString args \<noteq> [] then
           (case retry_match (urlString args) of
              Some sessionId \<Rightarrow>
                if \<not> isApiBridgeRequest s \<and> isCaptureModeActive s
                then snd (fetch (update_call sessionId) (s\<lparr>isCaptureModeActive := False\<rparr>))
                else s
            | None \<Rightarrow> s)
         else s)
      in originalFetch args s1)"
  by pat_completeness auto
termination
proof (relation "measure (\<lambda>(args, s). if retry_match (urlString args) = None then 0 else 1)")
  fix args :: fetch_args and s :: page and sessionId
  assume "retry_match (urlString args) = Some sessionId"
  then show "((update_call sessionId, s\<lparr>isCaptureModeActive := False\<rparr>), (args, s))
      \<in> measure (\<lambda>(args, s). if retry_match (urlString args) = None then 0 else 1)"
    by (simp add: update_call_no_match)
qed simp

declare fetch.simps [simp del]

text \<open>
  The condition under which the wrapper takes its capture branch: the URL is a non-empty
  string that matches the pattern, the call is not flagged as the bridge's own, and the
  capture mode is armed.
\<close>

definition capture_eligible :: "fetch_args \<Rightarrow> page \<Rightarrow> bool" where
  "capture_eligible args s =
     (urlString args \<noteq> [] \<and> retry_match (urlString args) \<noteq> None
      \<and> \<not> isApiBridgeRequest s \<and> isCaptureModeActive s)"

section \<open>The request executor: \<open>executeFetchAndStreamBack\<close>\<close>

text \<open>\<^verbatim>\<open>x || d\<close> for a value that is a string or missing.\<close>

definition or_default :: "string option \<Rightarrow> string \<Rightarrow> string" where
  "or_default x d = (case x of None \<Rightarrow> d | Some v \<Rightarrow> if v = [] then d else v)"

text \<open>The loop that builds \<^verbatim>\<open>newMessages\<close>, one identifier for each template.\<close>

fun build_messages :: "env \<Rightarrow> string \<Rightarrow> message_template list \<Rightarrow> page \<Rightarrow> message list \<times> page" where
  "build_messages e sid [] s = ([], s)"
| "build_messages e sid (template # templates) s =
     (let (messageId, s1) = generateUUIDv7 e s;
          m = \<lparr>message_id = messageId,
               evaluationSessionId = sid,
               message_role = role template,
               parentMessageIds = [],
               message_content = content template,
               experimental_attachments = (case attachments template of None \<Rightarrow> [] | Some as \<Rightarrow> as),
               message_position = or_default (participantPosition template) ''b''\<rparr>;
          (ms, s2) = build_messages e sid templates s1
      in (m # ms, s2))"

text \<open>
  The reading loop: each chunk goes through the demultiplexer and is forwarded when
  something is left of it; the end of the stream sends \<open>[DONE]\<close> and leaves the loop; a
  failed read raises.
\<close>

fun relay :: "string \<Rightarrow> string \<Rightarrow> string list \<Rightarrow> stream_end \<Rightarrow> page \<Rightarrow> (error_message + unit) \<times> page" where
  "relay requestId targetPosition [] EndOfStream s = (Inr (), sendToServer requestId DONE s)"
| "relay requestId targetPosition [] (ReadFailed m) s = (Inl (Thrown m), s)"
| "relay requestId targetPosition (chunk # chunks) ending s =
     relay requestId targetPosition chunks ending
       (case filterStreamByTarget chunk targetPosition of
          Some filteredChunk \<Rightarrow>
            if filteredChunk \<noteq> [] then sendToServer requestId (Text filteredChunk) s else s
        | None \<Rightarrow> s)"

text \<open>The target handed to the demultiplexer: \<^verbatim>\<open>battle_target || 'b'\<close>.\<close>

definition target_of :: "position option \<Rightarrow> string" where
  "target_of target = (case target of None \<Rightarrow> ''b'' | Some p \<Rightarrow> tag p)"

text \<open>
  The body of the \<^verbatim>\<open>try\<close> block; \<open>Inl\<close> is the exception that leaves it. The call of
  \<^verbatim>\<open>fetch\<close> goes through the wrapper, which is what \<^verbatim>\<open>window.fetch\<close> is by then.
\<close>

definition fetch_and_stream ::
    "env \<Rightarrow> string \<Rightarrow> string \<Rightarrow> evaluation_body \<Rightarrow> position option \<Rightarrow> page \<Rightarrow> (error_message + unit) \<times> page" where
  "fetch_and_stream e requestId apiUrl body target s =
     (let (promise, s1) = fetch (Str apiUrl, EvaluationPost body) s
      in case settle e promise of
           Rejected m \<Rightarrow> (Inl (Thrown m), s1)
         | Resolved response \<Rightarrow>
             (case (if resp_ok response then resp_body response else None) of
                None \<Rightarrow>
                  (case resp_text response of
                     Inl m \<Rightarrow> (Inl (Thrown m), s1)
                   | Inr errorBody \<Rightarrow> (Inl (BadResponse (resp_status response) errorBody), s1))
              | Some (chunks, ending) \<Rightarrow>
                  (let targetPosition = target_of target
                   in relay requestId targetPosition chunks ending s1)))"

text \<open>A pre-flight failure: the error frame, then \<open>[DONE]\<close>, and nothing else.\<close>

definition preflight_failure :: "string \<Rightarrow> error_message \<Rightarrow> page \<Rightarrow> page" where
  "preflight_failure requestId errorMsg s =
     sendToServer requestId DONE (sendToServer requestId (ErrorObj errorMsg) s)"

text \<open>
  The executor, as one run from the arrival of the request to the end of its \<^verbatim>\<open>finally\<close>
  block: what other handlers do while it waits for the network is not part of it.
\<close>

definition executeFetchAndStreamBack :: "env \<Rightarrow> string \<Rightarrow> payload \<Rightarrow> page \<Rightarrow> page" where
  "executeFetchAndStreamBack e requestId p s =
     (case session_id p of
        None \<Rightarrow> preflight_failure requestId SessionIdEmpty s
      | Some sid \<Rightarrow>
          if sid = [] then preflight_failure requestId SessionIdEmpty s
          else
            (let apiUrl = ''/nextjs-api/stream/post-to-evaluation/'' @ sid
             in case message_templates p of
                  None \<Rightarrow> preflight_failure requestId MessageListEmpty s
                | Some templates \<Rightarrow>
                    if length templates = 0 then preflight_failure requestId MessageListEmpty s
                    else
                      (let (userId, s1) = generateUUIDv7 e s;
                           (modelAId, s2) = generateUUIDv7 e s1;
                           (modelBId, s3) = generateUUIDv7 e s2;
                           (newMessages, s4) = build_messages e sid templates s3;
                           body = \<lparr>body_id = sid, body_mode = ''battle'',
                                   userMessageId = userId,
                                   modelAMessageId = modelAId,
                                   modelBMessageId = modelBId,
                                   messages = newMessages, modality = ''chat''\<rparr>;
                           s5 = s4\<lparr>isApiBridgeRequest := True\<rparr>;
                           (result, s6) = fetch_and_stream e requestId apiUrl body (battle_target p) s5;
                           s7 = (case result of
                                   Inl errorMsg \<Rightarrow> sendToServer requestId (ErrorObj errorMsg) s6
                                 | Inr _ \<Rightarrow> s6)
                       in s7\<lparr>isApiBridgeRequest := False\<rparr>)))"

section \<open>The command dispatcher and the events of the page\<close>

text \<open>
  An inbound socket message: text on which the handler raises before it reads a field (it
  does not parse, or parses to \<^verbatim>\<open>null\<close>), or an object with its \<open>command\<close>, \<open>request_id\<close>
  and \<open>payload\<close> fields, each possibly missing.
\<close>

datatype inbound = Unparseable | Message "string option" "string option" "payload option"

text \<open>\<^verbatim>\<open>location.reload()\<close>: the script starts again, with its initial values.\<close>

definition reload :: "page \<Rightarrow> page" where
  "reload s = s\<lparr>socket_open := False, isCaptureModeActive := False, isApiBridgeRequest := False\<rparr>"

definition sendPageSource :: "page \<Rightarrow> page" where
  "sendPageSource s =
     snd (fetch (Str ''http://localhost:5102/internal/update_available_models'', PageMarkup) s)"

definition dispatch :: "string \<Rightarrow> page \<Rightarrow> page" where
  "dispatch command s =
     (if command = ''refresh'' \<or> command = ''reconnect'' then reload s
      else if command = ''activate_id_capture'' then s\<lparr>isCaptureModeActive := True\<rparr>
      else if command = ''send_page_source'' then sendPageSource s
      else s)"

definition handle_request :: "env \<Rightarrow> string option \<Rightarrow> payload option \<Rightarrow> page \<Rightarrow> page" where
  "handle_request e request_id payload s =
     (case (request_id, payload) of
        (Some requestId, Some p) \<Rightarrow>
          if requestId = [] then s else executeFetchAndStreamBack e requestId p s
      | _ \<Rightarrow> s)"

definition onmessage :: "env \<Rightarrow> inbound \<Rightarrow> page \<Rightarrow> page" where
  "onmessage e m s =
     (case m of
        Unparseable \<Rightarrow> s
      | Message None request_id payload \<Rightarrow> handle_request e request_id payload s
      | Message (Some command) request_id payload \<Rightarrow>
          if command \<noteq> [] then dispatch command s
          else handle_request e request_id payload s)"

text \<open>
  What can happen to the page: a message arrives on the socket, the page itself calls
  \<^verbatim>\<open>fetch\<close>, or the delivery of a captured identifier settles, whose handlers only log.
\<close>

datatype event = Receive inbound | PageCall resource string | Settled fetch_outcome

text \<open>
  The handlers of the delivery, \<^verbatim>\<open>.then(...)\<close> and \<^verbatim>\<open>.catch(...)\<close>, write to the console and
  change nothing else, whether the delivery succeeded or failed.
\<close>

definition delivery_settled :: "fetch_outcome \<Rightarrow> page \<Rightarrow> page" where
  "delivery_settled outcome s = s"

fun step :: "env \<Rightarrow> event \<Rightarrow> page \<Rightarrow> page" where
  "step e (Receive m) s = onmessage e m s"
| "step e (PageCall r i) s = snd (fetch (r, PageInit i) s)"
| "step e (Settled outcome) s = delivery_settled outcome s"

fun run :: "env \<Rightarrow> event list \<Rightarrow> page \<Rightarrow> page" where
  "run e [] s = s"
| "run e (ev # evs) s = run e evs (step e ev s)"

section \<open>Notions used to state the properties\<close>

text \<open>The filtered chunks that the reading loop forwards, in order.\<close>

definition forwarded :: "string \<Rightarrow> string list \<Rightarrow> string list" where
  "forwarded t chunks =
     concat (map (\<lambda>c. case filterStreamByTarget c t of
                         Some f \<Rightarrow> if f \<noteq> [] then [f] else []
                       | None \<Rightarrow> []) chunks)"

text \<open>What the loop sends when the reading ends: \<open>[DONE]\<close> at the end of the stream only.\<close>

definition closing :: "string \<Rightarrow> stream_end \<Rightarrow> frame list" where
  "closing r ending = (case ending of EndOfStream \<Rightarrow> [(r, DONE)] | ReadFailed m \<Rightarrow> [])"

text \<open>The body that is streamed: that of a resolved call with a good status and a body.\<close>

definition streaming :: "fetch_outcome \<Rightarrow> (string list \<times> stream_end) option" where
  "streaming outcome =
     (case outcome of
        Rejected m \<Rightarrow> None
      | Resolved resp \<Rightarrow> if resp_ok resp then resp_body resp else None)"

text \<open>The frames sent inside the \<^verbatim>\<open>try\<close> block, and the exception that leaves it, if any.\<close>

definition try_frames :: "string \<Rightarrow> string \<Rightarrow> fetch_outcome \<Rightarrow> frame list" where
  "try_frames r t outcome =
     (case streaming outcome of
        None \<Rightarrow> []
      | Some (cs, ending) \<Rightarrow> map (\<lambda>f. (r, Text f)) (forwarded t cs) @ closing r ending)"

definition try_error :: "fetch_outcome \<Rightarrow> error_message option" where
  "try_error outcome =
     (case streaming outcome of
        Some (cs, EndOfStream) \<Rightarrow> None
      | Some (cs, ReadFailed m) \<Rightarrow> Some (Thrown m)
      | None \<Rightarrow>
          (case outcome of
             Rejected m \<Rightarrow> Some (Thrown m)
           | Resolved resp \<Rightarrow>
               (case resp_text resp of
                  Inl m \<Rightarrow> Some (Thrown m)
                | Inr errorBody \<Rightarrow> Some (BadResponse (resp_status resp) errorBody))))"

text \<open>
  The frames of a request that passes validation, read off the outcome of its call, which
  is the next one the real \<^verbatim>\<open>fetch\<close> receives.
\<close>

definition request_frames :: "env \<Rightarrow> string \<Rightarrow> payload \<Rightarrow> page \<Rightarrow> frame list" where
  "request_frames e r p s =
     (let outcome = settle e (length (network s))
      in try_frames r (target_of (battle_target p)) outcome @
         (case try_error outcome of Some m \<Rightarrow> [(r, ErrorObj m)] | None \<Rightarrow> []))"

text \<open>A request that fails validation, and the message of its error frame.\<close>

definition invalid :: "payload \<Rightarrow> bool" where
  "invalid p =
     (session_id p = None \<or> session_id p = Some [] \<or>
      message_templates p = None \<or> message_templates p = Some [])"

definition preflight_message :: "payload \<Rightarrow> error_message" where
  "preflight_message p =
     (if session_id p = None \<or> session_id p = Some [] then SessionIdEmpty else MessageListEmpty)"

text \<open>
  The deliveries of captured identifiers among the calls the real \<^verbatim>\<open>fetch\<close> has received:
  only the interceptor posts a session update.
\<close>

definition is_delivery :: "net_call \<Rightarrow> bool" where
  "is_delivery c = (case snd (call_args c) of SessionUpdate sid \<Rightarrow> True | _ \<Rightarrow> False)"

definition deliveries :: "page \<Rightarrow> net_call list" where
  "deliveries s = filter is_delivery (network s)"

text \<open>The event that arms the capture mode: the command \<open>activate_id_capture\<close>.\<close>

definition activation :: "event \<Rightarrow> bool" where
  "activation ev =
     (case ev of
        Receive (Message (Some command) request_id payload) \<Rightarrow> command = ''activate_id_capture''
      | _ \<Rightarrow> False)"

section \<open>Sample inputs\<close>

definition template0 :: message_template where
  "template0 = \<lparr>role = ''user'', content = ''hello'', attachments = None, participantPosition = None\<rparr>"

definition payload0 :: payload where
  "payload0 = \<lparr>is_image_request = False, message_templates = Some [template0],
                target_model_id = None, session_id = Some ''0a1b-2c3d'', battle_target = None\<rparr>"

definition payload_empty :: payload where
  "payload_empty = \<lparr>is_image_request = False, message_templates = Some [],
                target_model_id = None, session_id = Some ''0a1b-2c3d'', battle_target = None\<rparr>"

definition response0 :: response where
  "response0 = \<lparr>resp_ok = True, resp_status = 200,
                 resp_body = Some ([''a0:\"x\"\<newline>b0:\"y\"\<newline>'', ''a0:\"z\"\<newline>'', ''bd:{}\<newline>''], EndOfStream),
                 resp_text = Inr []\<rparr>"

definition env0 :: env where
  "env0 = \<lparr>clock = (\<lambda>k. 1000 + k), entropy = (\<lambda>k i. of_nat (16 * k + i + 200)),
            settle = (\<lambda>k. Resolved response0)\<rparr>"

definition env_rejected :: env where
  "env_rejected = env0\<lparr>settle := (\<lambda>k. Rejected ''Failed to fetch'')\<rparr>"

definition env_bad_status :: env where
  "env_bad_status =
     env0\<lparr>settle := (\<lambda>k. Resolved (response0\<lparr>resp_ok := False, resp_status := 500, resp_text := Inr ''oops''\<rparr>))\<rparr>"

definition page0 :: page where
  "page0 = \<lparr>socket_open = True, socket_out = [], emitted = [], isCaptureModeActive = True,
             isApiBridgeRequest = False, network = [], uuid_calls = 0\<rparr>"

definition page_flagged :: page where
  "page_flagged = page0\<lparr>isApiBridgeRequest := True\<rparr>"

definition retry_url :: string where
  "retry_url = ''https://lmarena.ai/nextjs-api/stream/retry-evaluation-session-message/0a1b-2c3d/messages/4e5f-6a7b''"

definition events0 :: "event list" where
  "events0 = [Settled (Rejected ''connection refused''), PageCall (Str retry_url) [],
              Receive (Message None (Some ''req-1'') (Some payload0)), PageCall (URLObj retry_url) []]"

section \<open>Properties of the demultiplexer\<close>

lemma prefix_before_foreign:
  assumes "x \<notin> set p"
  shows "prefix p (l @ x # r) = prefix p l"
proof
  assume "prefix p (l @ x # r)"
  then consider "prefix p l" | us where "p = l @ us" "prefix us (x # r)"
    by (auto simp: prefix_append)
  then show "prefix p l"
  proof cases
    case 1 then show ?thesis .
  next
    case 2
    with assms have "us = []" by (cases us) auto
    with 2 show ?thesis by simp
  qed
next
  assume "prefix p l" then show "prefix p (l @ x # r)" by (simp add: prefix_prefix)
qed

lemma newline_not_marker: "newline \<notin> set t \<Longrightarrow> newline \<notin> set (t @ ''0:'') \<and> newline \<notin> set (t @ ''d:'')"
  by (simp add: newline_def)

lemma tagged_line:
  "newline \<notin> set t \<Longrightarrow> tagged t (l @ newline # r) = tagged t l"
  using newline_not_marker [of t] by (simp add: tagged_def prefix_before_foreign)

lemma tagged_newline: "newline \<notin> set t \<Longrightarrow> \<not> tagged t (newline # r)"
  using tagged_line [of t "[]" r] by (simp add: tagged_def)

lemma tagged_length: "tagged t s \<Longrightarrow> length t + 2 \<le> length s"
  by (auto simp: tagged_def dest: prefix_length_le)

lemma exec_at_whole_line:
  assumes "tagged t l" "newline \<notin> set l"
  shows "exec_at t (l @ newline # r) = Some l" and "exec_at t l = Some l"
proof -
  define n where "n = length t + 2"
  from assms(1) have len: "n \<le> length l"
    unfolding n_def by (rule tagged_length)
  from assms(1) have t1: "tagged t (l @ newline # r)"
    by (auto simp: tagged_def prefix_prefix)
  have nl: "\<forall>c\<in>set (drop n l). c \<noteq> newline"
    using assms(2) by (auto dest: in_set_dropD)
  then have tw: "takeWhile (\<lambda>c. c \<noteq> newline) (drop n l @ newline # r) = drop n l"
    by (simp add: takeWhile_tail)
  from nl have tw': "takeWhile (\<lambda>c. c \<noteq> newline) (drop n l) = drop n l"
    by simp
  have "exec_at t (l @ newline # r) =
          Some (take n (l @ newline # r) @ takeWhile (\<lambda>c. c \<noteq> newline) (drop n (l @ newline # r)))"
    using t1 unfolding exec_at_def n_def by simp
  also have "\<dots> = Some l"
    using len tw by simp
  finally show "exec_at t (l @ newline # r) = Some l" .
  have "exec_at t l = Some (take n l @ takeWhile (\<lambda>c. c \<noteq> newline) (drop n l))"
    using assms(1) unfolding exec_at_def n_def by simp
  also have "\<dots> = Some l"
    by (simp only: tw' append_take_drop_id)
  finally show "exec_at t l = Some l" .
qed

lemma match_all_Nil: "match_all t [] = []"
  by (simp add: match_all.simps exec_at_def tagged_def)

lemma match_all_whole_line:
  "tagged t l \<Longrightarrow> newline \<notin> set l \<Longrightarrow> match_all t l = [l]"
  by (subst match_all.simps) (simp add: exec_at_whole_line match_all_Nil)

lemma match_all_skip:
  "\<not> tagged t (c # cs) \<Longrightarrow> match_all t (c # cs) = match_all t cs"
  by (subst match_all.simps) (simp add: exec_at_def)

lemma match_all_line:
  assumes "newline \<notin> set t" "newline \<notin> set l"
  shows "match_all t (l @ newline # r) = match_all t l @ match_all t r"
  using assms(2)
proof (induction l)
  case Nil
  then show ?case
    using assms(1) by (simp add: match_all_skip tagged_newline match_all_Nil)
next
  case (Cons c cs)
  show ?case
  proof (cases "tagged t (c # cs)")
    case True
    with Cons.prems have "match_all t ((c # cs) @ newline # r) = (c # cs) # match_all t (newline # r)"
      by (subst match_all.simps) (simp add: exec_at_whole_line del: append_Cons)
    with True Cons.prems show ?thesis
      using assms(1) by (simp add: match_all_whole_line match_all_skip tagged_newline)
  next
    case False
    have "tagged t ((c # cs) @ newline # r) = tagged t (c # cs)"
      using assms(1) by (rule tagged_line)
    with False have "\<not> tagged t (c # (cs @ newline # r))"
      by simp
    with False Cons show ?thesis
      by (simp add: match_all_skip)
  qed
qed

lemma split_lines_shape:
  "split_lines s = l # ls \<Longrightarrow>
     newline \<notin> set l \<and> (if ls = [] then s = l else \<exists>r. s = l @ newline # r \<and> split_lines r = ls)"
proof (induction s arbitrary: l ls)
  case Nil
  then show ?case by simp
next
  case (Cons c cs)
  show ?case
  proof (cases "c = newline")
    case True
    with Cons.prems have "l = []" "ls = split_lines cs" by simp_all
    moreover have "split_lines cs \<noteq> []" by (cases cs) (auto split: list.splits)
    ultimately show ?thesis using True by simp
  next
    case False
    obtain l' ls' where sp: "split_lines cs = l' # ls'"
      by (cases "split_lines cs"; cases cs) (auto split: list.splits if_splits)
    with False Cons.prems have l: "l = c # l'" "ls = ls'" by simp_all
    from Cons.IH [OF sp] False l show ?thesis by auto
  qed
qed

lemma match_all_lines:
  assumes "newline \<notin> set t"
  shows "match_all t s = concat (map (match_all t) (split_lines s))"
proof (induction "split_lines s" arbitrary: s)
  case Nil
  then show ?case by (cases s) (auto split: list.splits if_splits)
next
  case (Cons l ls)
  from split_lines_shape [OF Cons.hyps(2) [symmetric]]
  have nl: "newline \<notin> set l"
    and sh: "if ls = [] then s = l else \<exists>r. s = l @ newline # r \<and> split_lines r = ls"
    by simp_all
  show ?case
  proof (cases "ls = []")
    case True
    with sh Cons.hyps(2) [symmetric] show ?thesis by simp
  next
    case False
    with sh obtain r where r: "s = l @ newline # r" "split_lines r = ls" by auto
    from Cons.hyps(1) [of r] r have "match_all t r = concat (map (match_all t) ls)" by simp
    with r nl assms Cons.hyps(2) [symmetric] show ?thesis
      by (simp add: match_all_line)
  qed
qed

lemma match_all_none: "\<not> occurs t l \<Longrightarrow> match_all t l = []"
  by (induction l) (simp_all add: match_all_Nil match_all_skip)

lemma exec_at_tagged:
  assumes "exec_at t s = Some m" "newline \<notin> set t"
  shows "tagged t m \<and> newline \<notin> set m"
proof -
  define n where "n = length t + 2"
  from assms(1) have tg: "tagged t s"
    by (simp add: exec_at_def split: if_splits)
  with assms(1) have m: "m = take n s @ takeWhile (\<lambda>c. c \<noteq> newline) (drop n s)"
    unfolding n_def by (simp add: exec_at_def)
  from tg have hd: "take n s = t @ ''0:'' \<or> take n s = t @ ''d:''"
    unfolding n_def tagged_def by (auto simp: prefix_def)
  then have "tagged t m"
    unfolding m tagged_def by auto
  moreover have "newline \<notin> set (take n s)"
    using hd assms(2) by (auto simp: newline_def)
  moreover have "newline \<notin> set (takeWhile (\<lambda>c. c \<noteq> newline) (drop n s))"
    by (auto dest: set_takeWhileD)
  ultimately show ?thesis by (simp add: m)
qed

lemma match_all_tagged:
  "newline \<notin> set t \<Longrightarrow> m \<in> set (match_all t s) \<Longrightarrow> tagged t m \<and> newline \<notin> set m"
proof (induction t s rule: match_all.induct)
  case (1 t s)
  show ?case
  proof (cases "exec_at t s")
    case None
    show ?thesis
    proof (cases s)
      case Nil
      with "1.prems"(2) show ?thesis by (simp add: match_all_Nil)
    next
      case (Cons c cs)
      from None have "\<not> tagged t s"
        by (simp add: exec_at_def split: if_splits)
      with Cons "1.prems"(2) have "m \<in> set (match_all t cs)"
        by (simp add: match_all_skip)
      with "1.IH"(1) [OF None Cons "1.prems"(1)] show ?thesis .
    qed
  next
    case (Some m')
    from "1.prems"(2) Some have "m = m' \<or> m \<in> set (match_all t (drop (length m') s))"
      by (subst (asm) match_all.simps) simp
    with Some "1.prems"(1) "1.IH"(2) exec_at_tagged [OF Some] show ?thesis by auto
  qed
qed

lemma join_newline:
  "ms \<noteq> [] \<Longrightarrow> join [newline] ms @ [newline] = concat (map (\<lambda>m. m @ [newline]) ms)"
  by (induction "[newline]" ms rule: join.induct) simp_all

lemma match_all_records:
  assumes "newline \<notin> set t"
  shows "\<forall>m\<in>set ms. tagged t m \<and> newline \<notin> set m \<Longrightarrow>
         match_all t (concat (map (\<lambda>m. m @ [newline]) ms)) = ms"
proof (induction ms)
  case Nil
  then show ?case by (simp add: match_all_Nil)
next
  case (Cons m ms)
  from Cons.prems have m: "tagged t m" "newline \<notin> set m" by simp_all
  from Cons have rest: "match_all t (concat (map (\<lambda>m. m @ [newline]) ms)) = ms" by simp
  have "match_all t (m @ newline # concat (map (\<lambda>m. m @ [newline]) ms)) =
          match_all t m @ match_all t (concat (map (\<lambda>m. m @ [newline]) ms))"
    using assms m(2) by (rule match_all_line)
  with m rest show ?case by (simp add: match_all_whole_line)
qed

lemma filterStreamByTarget_idempotent:
  assumes "newline \<notin> set t" "filterStreamByTarget chunk t = Some out"
  shows "filterStreamByTarget out t = Some out"
proof -
  define ms where "ms = match_all t chunk"
  from assms(2) have ne: "ms \<noteq> []" and out: "out = join [newline] ms @ [newline]"
    unfolding ms_def by (auto simp: filterStreamByTarget_def Let_def split: if_splits)
  have "\<forall>m\<in>set ms. tagged t m \<and> newline \<notin> set m"
    unfolding ms_def using match_all_tagged [OF assms(1)] by blast
  then have "match_all t out = ms"
    using ne out assms(1) by (simp add: join_newline match_all_records)
  with ne out show ?thesis
    by (simp add: filterStreamByTarget_def)
qed

lemma split_lines_no_newline: "l \<in> set (split_lines s) \<Longrightarrow> newline \<notin> set l"
proof (induction "split_lines s" arbitrary: s)
  case Nil
  then show ?case by simp
next
  case (Cons l' ls)
  from split_lines_shape [OF Cons.hyps(2) [symmetric]]
  have nl: "newline \<notin> set l'"
    and sh: "if ls = [] then s = l' else \<exists>r. s = l' @ newline # r \<and> split_lines r = ls"
    by simp_all
  from Cons.prems Cons.hyps(2) [symmetric] have "l = l' \<or> l \<in> set ls" by simp
  then show ?case
  proof
    assume "l = l'" with nl show ?thesis by simp
  next
    assume in_ls: "l \<in> set ls"
    then have "ls \<noteq> []" by auto
    with sh obtain r where r: "split_lines r = ls" by auto
    from Cons.hyps(1) [of r] r in_ls show ?thesis by simp
  qed
qed

lemma occurs_tagged: "tagged t l \<Longrightarrow> occurs t l"
  by (cases l) simp_all

lemma match_all_anchored:
  assumes "newline \<notin> set t"
    and "\<forall>l\<in>set (split_lines chunk). tagged t l \<or> \<not> occurs t l"
  shows "match_all t chunk = filter (tagged t) (split_lines chunk)"
proof -
  have "concat (map (match_all t) ls) = filter (tagged t) ls"
    if "\<forall>l\<in>set ls. newline \<notin> set l \<and> (tagged t l \<or> \<not> occurs t l)" for ls
    using that
  proof (induction ls)
    case Nil
    then show ?case by simp
  next
    case (Cons l ls)
    then show ?case
      by (cases "tagged t l") (auto simp: match_all_whole_line match_all_none dest: occurs_tagged)
  qed
  moreover have "\<forall>l\<in>set (split_lines chunk). newline \<notin> set l \<and> (tagged t l \<or> \<not> occurs t l)"
    using assms(2) split_lines_no_newline by blast
  ultimately show ?thesis
    using assms(1) by (simp add: match_all_lines)
qed

subsection \<open>The shape of an identifier\<close>

lemma hexdigit_inj: "a < 16 \<Longrightarrow> b < 16 \<Longrightarrow> hexdigit a = hexdigit b \<Longrightarrow> a = b"
proof -
  assume a: "a < 16" and b: "b < 16" and eq: "hexdigit a = hexdigit b"
  have "distinct ''0123456789abcdef''" by simp
  moreover have "a < length ''0123456789abcdef''" "b < length ''0123456789abcdef''"
    using a b by simp_all
  ultimately show "a = b"
    using eq unfolding hexdigit_def by (simp only: nth_eq_iff_index_eq)
qed

lemma length_digits [simp]: "length (digits k n) = k"
  by (induction k arbitrary: n) simp_all

lemma digits_lt: "d \<in> set (digits k n) \<Longrightarrow> d < 16"
  by (induction k arbitrary: n) auto

lemma digits_zero: "digits k 0 = replicate k 0"
  by (induction k) (simp_all add: replicate_append_same)

lemma digits_inj: "n < 16 ^ k \<Longrightarrow> m < 16 ^ k \<Longrightarrow> digits k n = digits k m \<Longrightarrow> n = m"
proof (induction k arbitrary: n m)
  case 0
  then show ?case by simp
next
  case (Suc k)
  from Suc.prems have "n div 16 < 16 ^ k" "m div 16 < 16 ^ k"
    by (simp_all add: less_mult_imp_div_less mult.commute)
  moreover from Suc.prems(3) have "digits k (n div 16) = digits k (m div 16)" "n mod 16 = m mod 16"
    by simp_all
  ultimately have "n div 16 = m div 16" "n mod 16 = m mod 16"
    using Suc.IH by blast+
  then show ?case
    by (metis div_mult_mod_eq)
qed

lemma map_hexdigit_inj:
  "\<forall>d\<in>set xs. d < 16 \<Longrightarrow> \<forall>d\<in>set ys. d < 16 \<Longrightarrow> map hexdigit xs = map hexdigit ys \<Longrightarrow> xs = ys"
proof (induction xs arbitrary: ys)
  case Nil
  then show ?case by simp
next
  case (Cons x xs)
  from Cons.prems(3) obtain y ys' where ys: "ys = y # ys'"
    by (cases ys) auto
  from Cons.prems ys have hd: "hexdigit x = hexdigit y" "x < 16" "y < 16"
    and tl: "\<forall>d\<in>set xs. d < 16" "\<forall>d\<in>set ys'. d < 16" "map hexdigit xs = map hexdigit ys'"
    by simp_all
  from hd have "x = y" using hexdigit_inj by blast
  moreover from tl have "xs = ys'" by (rule Cons.IH)
  ultimately show ?case using ys by simp
qed

lemma padStart_hex:
  "0 < k \<Longrightarrow> n < 16 ^ k \<Longrightarrow> padStart k CHR ''0'' (toString16 n) = map hexdigit (digits k n)"
proof (induction k arbitrary: n)
  case 0
  then show ?case by simp
next
  case (Suc k)
  show ?case
  proof (cases "n < 16")
    case True
    then have "toString16 n = [hexdigit n]"
      by (simp add: toString16.simps)
    moreover have "CHR ''0'' = hexdigit 0"
      by (simp add: hexdigit_def)
    ultimately show ?thesis
      using True by (simp add: padStart_def digits_zero replicate_append_same)
  next
    case False
    then have ts: "toString16 n = toString16 (n div 16) @ [hexdigit (n mod 16)]"
      by (subst toString16.simps) simp
    from False Suc.prems have k: "0 < k"
      by (cases k) auto
    from Suc.prems have "n div 16 < 16 ^ k"
      by (simp add: less_mult_imp_div_less mult.commute)
    with Suc.IH k have "padStart k CHR ''0'' (toString16 (n div 16)) = map hexdigit (digits k (n div 16))"
      by simp
    then show ?thesis
      by (simp add: ts padStart_def)
  qed
qed

lemma hex2_digits: "hex2 b = map hexdigit (digits 2 (unat b))"
proof -
  have "unat b < 2 ^ 8"
    using unsigned_less [of b] by simp
  then have "unat b < 16 ^ 2" by simp
  then show ?thesis
    unfolding hex2_def by (intro padStart_hex) simp_all
qed

lemma length_hex2 [simp]: "length (hex2 b) = 2"
  by (simp add: hex2_digits)

lemma hex2_inj: "hex2 a = hex2 b \<Longrightarrow> a = b"
proof -
  assume eq: "hex2 a = hex2 b"
  have lt: "unat a < 16 ^ 2" "unat b < 16 ^ 2"
    using unsigned_less [of a] unsigned_less [of b] by simp_all
  from eq have "digits 2 (unat a) = digits 2 (unat b)"
    unfolding hex2_digits by (intro map_hexdigit_inj) (auto dest: digits_lt)
  with lt have "unat a = unat b"
    by (rule digits_inj)
  then show "a = b" by (simp add: word_unat_eq_iff)
qed

lemma hex2_low: "drop (Suc 0) (hex2 b) = [hexdigit (unat b mod 16)]"
  by (simp add: hex2_digits numeral_2_eq_2)

lemma concat_hex2_inj:
  "length xs = length ys \<Longrightarrow> concat (map hex2 xs) = concat (map hex2 ys) \<Longrightarrow> xs = ys"
proof (induction xs ys rule: list_induct2)
  case Nil
  then show ?case by simp
next
  case (Cons x xs y ys)
  from Cons.prems have "hex2 x = hex2 y \<and> concat (map hex2 xs) = concat (map hex2 ys)"
    by simp
  with Cons.IH show ?case
    by (simp add: hex2_inj)
qed

text \<open>The shape of an identifier whose clock reading fits 48 bits.\<close>

lemma uuidv7_shape:
  assumes "t < 2 ^ 48"
  shows "uuidv7 t r =
           take 8 (map hexdigit (digits 12 t)) @ ''-'' @ drop 8 (map hexdigit (digits 12 t)) @ ''-'' @
           (CHR ''7'' # hexdigit (unat (r 0) mod 16) # hex2 (r 1)) @ ''-'' @
           (hex2 ((r 2 AND 0x3f) OR 0x80) @ hex2 (r 3)) @ ''-'' @
           concat (map hex2 (map r [4..<10]))"
proof -
  from assms have "t < 16 ^ 12" by simp
  then have H: "padStart 12 CHR ''0'' (toString16 t) = map hexdigit (digits 12 t)"
    by (intro padStart_hex) simp_all
  have p3: "substring 1 4 (concat (map (\<lambda>i. hex2 (r i)) [0..<2])) = hexdigit (unat (r 0) mod 16) # hex2 (r 1)"
  proof -
    have "[0..<2] = [0, Suc 0]" by (simp add: upt_rec)
    then have "concat (map (\<lambda>i. hex2 (r i)) [0..<2]) = hex2 (r 0) @ hex2 (r 1)"
      by simp
    moreover have "take 3 (drop 1 (hex2 (r 0) @ hex2 (r 1))) = drop 1 (hex2 (r 0)) @ hex2 (r 1)"
      by simp
    ultimately show ?thesis
      by (simp add: substring_def hex2_low)
  qed
  have p12: "substring 0 8 (map hexdigit (digits 12 t)) = take 8 (map hexdigit (digits 12 t))"
    "substring 8 12 (map hexdigit (digits 12 t)) = drop 8 (map hexdigit (digits 12 t))"
    by (simp_all add: substring_def)
  show ?thesis
    unfolding uuidv7_def Let_def H p3 p12 by (simp add: map_map comp_def)
qed

lemma uuidv7_kept:
  assumes "t < 2 ^ 48" "t' < 2 ^ 48"
  shows "(uuidv7 t r = uuidv7 t' r') = (kept t r = kept t' r')"
proof
  assume eq: "uuidv7 t r = uuidv7 t' r'"
  define H where "H = map hexdigit (digits 12 t)"
  define H' where "H' = map hexdigit (digits 12 t')"
  have len: "length H = 12" "length H' = 12"
    by (simp_all add: H_def H'_def)
  from eq have e: "take 8 H @ ''-'' @ drop 8 H @ ''-'' @
           (CHR ''7'' # hexdigit (unat (r 0) mod 16) # hex2 (r 1)) @ ''-'' @
           (hex2 ((r 2 AND 0x3f) OR 0x80) @ hex2 (r 3)) @ ''-'' @
           concat (map hex2 (map r [4..<10]))
         = take 8 H' @ ''-'' @ drop 8 H' @ ''-'' @
           (CHR ''7'' # hexdigit (unat (r' 0) mod 16) # hex2 (r' 1)) @ ''-'' @
           (hex2 ((r' 2 AND 0x3f) OR 0x80) @ hex2 (r' 3)) @ ''-'' @
           concat (map hex2 (map r' [4..<10]))"
    unfolding H_def H'_def by (simp only: uuidv7_shape [OF assms(1)] uuidv7_shape [OF assms(2)])
  from e len have 1: "take 8 H = take 8 H'"
    and e1: "drop 8 H @ ''-'' @
           (CHR ''7'' # hexdigit (unat (r 0) mod 16) # hex2 (r 1)) @ ''-'' @
           (hex2 ((r 2 AND 0x3f) OR 0x80) @ hex2 (r 3)) @ ''-'' @
           concat (map hex2 (map r [4..<10]))
         = drop 8 H' @ ''-'' @
           (CHR ''7'' # hexdigit (unat (r' 0) mod 16) # hex2 (r' 1)) @ ''-'' @
           (hex2 ((r' 2 AND 0x3f) OR 0x80) @ hex2 (r' 3)) @ ''-'' @
           concat (map hex2 (map r' [4..<10]))"
    by simp_all
  from e1 len have 2: "drop 8 H = drop 8 H'"
    and e2: "hexdigit (unat (r 0) mod 16) # hex2 (r 1) @ ''-'' @
           (hex2 ((r 2 AND 0x3f) OR 0x80) @ hex2 (r 3)) @ ''-'' @
           concat (map hex2 (map r [4..<10]))
         = hexdigit (unat (r' 0) mod 16) # hex2 (r' 1) @ ''-'' @
           (hex2 ((r' 2 AND 0x3f) OR 0x80) @ hex2 (r' 3)) @ ''-'' @
           concat (map hex2 (map r' [4..<10]))"
    by simp_all
  from 1 2 have "H = H'"
    by (metis append_take_drop_id)
  then have "digits 12 t = digits 12 t'"
    unfolding H_def H'_def by (intro map_hexdigit_inj) (auto dest: digits_lt)
  moreover from assms have "t < 16 ^ 12" "t' < 16 ^ 12" by simp_all
  ultimately have t: "t = t'"
    using digits_inj by blast
  from e2 have 3: "hexdigit (unat (r 0) mod 16) = hexdigit (unat (r' 0) mod 16)"
    and 4: "hex2 (r 1) = hex2 (r' 1)"
    and 5: "hex2 ((r 2 AND 0x3f) OR 0x80) = hex2 ((r' 2 AND 0x3f) OR 0x80)"
    and 6: "hex2 (r 3) = hex2 (r' 3)"
    and 7: "concat (map hex2 (map r [4..<10])) = concat (map hex2 (map r' [4..<10]))"
    by simp_all
  from 3 have "unat (r 0) mod 16 = unat (r' 0) mod 16"
    by (intro hexdigit_inj) simp_all
  moreover from 7 have "map r [4..<10] = map r' [4..<10]"
    by (intro concat_hex2_inj) simp_all
  ultimately show "kept t r = kept t' r'"
    using t 4 5 6 by (simp add: kept_def hex2_inj)
next
  assume k: "kept t r = kept t' r'"
  then have "t = t'" "unat (r 0) mod 16 = unat (r' 0) mod 16" "r 1 = r' 1"
    "(r 2 AND 0x3f) OR 0x80 = (r' 2 AND 0x3f) OR 0x80" "r 3 = r' 3" "map r [4..<10] = map r' [4..<10]"
    by (simp_all add: kept_def)
  then show "uuidv7 t r = uuidv7 t' r'"
    by (simp only: uuidv7_shape [OF assms(1)] uuidv7_shape [OF assms(2)])
qed

text \<open>An identifier for a clock reading of November 2023 and the bytes 200 to 209.\<close>

lemma uuidv7_example:
  "uuidv7 1700000000000 (\<lambda>i. of_nat (200 + i)) = ''018bcfe5-6800-78c9-8acb-cccdcecfd0d1''"
  by (simp add: uuidv7_def Let_def padStart_def substring_def hex2_def toString16.simps
        hexdigit_def upt_rec)

subsection \<open>The send path and the identifier generator\<close>

lemma sendToServer_fields [simp]:
  "emitted (sendToServer r d s) = emitted s @ [(r, d)]"
  "socket_out (sendToServer r d s) = (if socket_open s then socket_out s @ [(r, d)] else socket_out s)"
  "socket_open (sendToServer r d s) = socket_open s"
  "isCaptureModeActive (sendToServer r d s) = isCaptureModeActive s"
  "isApiBridgeRequest (sendToServer r d s) = isApiBridgeRequest s"
  "network (sendToServer r d s) = network s"
  "uuid_calls (sendToServer r d s) = uuid_calls s"
  by (simp_all add: sendToServer_def Let_def)

lemma generateUUIDv7_fields [simp]:
  "fst (generateUUIDv7 e s) = uuidv7 (clock e (uuid_calls s)) (entropy e (uuid_calls s))"
  "snd (generateUUIDv7 e s) = s\<lparr>uuid_calls := Suc (uuid_calls s)\<rparr>"
  by (simp_all add: generateUUIDv7_def)

lemma build_messages_state:
  "snd (build_messages e sid ts s) = s\<lparr>uuid_calls := uuid_calls s + length ts\<rparr>"
  by (induction ts arbitrary: s) (simp_all add: split_def)

lemma build_messages_ids:
  "map message_id (fst (build_messages e sid ts s)) =
     map (\<lambda>i. uuidv7 (clock e (uuid_calls s + i)) (entropy e (uuid_calls s + i))) [0 ..< length ts]"
proof (induction ts arbitrary: s)
  case Nil
  then show ?case by simp
next
  case (Cons t ts)
  from Cons [of "s\<lparr>uuid_calls := Suc (uuid_calls s)\<rparr>"] show ?case
    by (simp add: split_def Let_def map_upt_Suc del: upt_Suc)
qed

subsection \<open>The wrapper around \<open>fetch\<close>\<close>

lemma originalFetch_fields [simp]:
  "fst (originalFetch args s) = length (network s)"
  "network (snd (originalFetch args s)) = network s @
      [\<lparr>call_args = args, by_bridge = isApiBridgeRequest s, capture_armed = isCaptureModeActive s\<rparr>]"
  "emitted (snd (originalFetch args s)) = emitted s"
  "socket_out (snd (originalFetch args s)) = socket_out s"
  "socket_open (snd (originalFetch args s)) = socket_open s"
  "isCaptureModeActive (snd (originalFetch args s)) = isCaptureModeActive s"
  "isApiBridgeRequest (snd (originalFetch args s)) = isApiBridgeRequest s"
  "uuid_calls (snd (originalFetch args s)) = uuid_calls s"
  by (simp_all add: originalFetch_def)

text \<open>
  The pattern on a few URLs: the second identifier must not be empty, upper-case digits are
  not identifier characters, the pattern may match anywhere in the URL, and the URL of the
  evaluation endpoint does not match.
\<close>

lemma retry_match_examples:
  "retry_match ''/nextjs-api/stream/retry-evaluation-session-message/0a1b/messages/'' = None"
  "retry_match ''/nextjs-api/stream/retry-evaluation-session-message/0A1B/messages/2c'' = None"
  "retry_match ''x/nextjs-api/stream/retry-evaluation-session-message/-/messages/2c/more'' = Some ''-''"
  "retry_match ''/nextjs-api/stream/post-to-evaluation/0a1b'' = None"
  by code_simp+

lemma fetch_forward:
  "\<not> capture_eligible args s \<Longrightarrow> fetch args s = originalFetch args s"
  by (subst fetch.simps) (auto simp: capture_eligible_def split: option.splits)

lemma fetch_update_call: "fetch (update_call sid) s = originalFetch (update_call sid) s"
  by (rule fetch_forward) (simp add: capture_eligible_def update_call_no_match)

lemma fetch_capture:
  assumes "capture_eligible args s" "retry_match (urlString args) = Some sid"
  shows "fetch args s =
           originalFetch args (snd (originalFetch (update_call sid) (s\<lparr>isCaptureModeActive := False\<rparr>)))"
  using assms by (subst fetch.simps) (simp add: capture_eligible_def fetch_update_call)

subsection \<open>The reading loop\<close>

lemma forwarded_simps [simp]:
  "forwarded t [] = []"
  "forwarded t (c # cs) =
     (case filterStreamByTarget c t of Some f \<Rightarrow> if f \<noteq> [] then [f] else [] | None \<Rightarrow> []) @ forwarded t cs"
  by (simp_all add: forwarded_def)

lemma relay_result:
  "fst (relay r t cs ending s) = (case ending of EndOfStream \<Rightarrow> Inr () | ReadFailed m \<Rightarrow> Inl (Thrown m))"
  by (induction r t cs ending s rule: relay.induct) simp_all

lemma relay_emitted:
  "emitted (snd (relay r t cs ending s)) =
     emitted s @ map (\<lambda>f. (r, Text f)) (forwarded t cs) @ closing r ending"
  by (induction r t cs ending s rule: relay.induct) (simp_all add: closing_def split: option.splits)

lemma relay_socket_open [simp]:
  "socket_open (snd (relay r t cs ending s)) = socket_open s"
  by (induction r t cs ending s rule: relay.induct) (simp_all split: option.splits)

lemma relay_socket_out:
  "socket_out (snd (relay r t cs ending s)) =
     socket_out s @ (if socket_open s then map (\<lambda>f. (r, Text f)) (forwarded t cs) @ closing r ending else [])"
  by (induction r t cs ending s rule: relay.induct) (simp_all add: closing_def split: option.splits)

lemma relay_fields [simp]:
  "isCaptureModeActive (snd (relay r t cs ending s)) = isCaptureModeActive s"
  "isApiBridgeRequest (snd (relay r t cs ending s)) = isApiBridgeRequest s"
  "network (snd (relay r t cs ending s)) = network s"
  "uuid_calls (snd (relay r t cs ending s)) = uuid_calls s"
  by (induction r t cs ending s rule: relay.induct) (simp_all split: option.splits)

subsection \<open>The \<open>try\<close> block\<close>

lemma fetch_and_stream_flagged:
  assumes "isApiBridgeRequest s"
  shows "fst (fetch_and_stream e r url body target s) =
           (case try_error (settle e (length (network s))) of Some m \<Rightarrow> Inl m | None \<Rightarrow> Inr ())"
    and "emitted (snd (fetch_and_stream e r url body target s)) =
           emitted s @ try_frames r (target_of target) (settle e (length (network s)))"
    and "socket_out (snd (fetch_and_stream e r url body target s)) =
           socket_out s @ (if socket_open s then try_frames r (target_of target) (settle e (length (network s))) else [])"
    and "network (snd (fetch_and_stream e r url body target s)) =
           network s @ [\<lparr>call_args = (Str url, EvaluationPost body), by_bridge = True,
                         capture_armed = isCaptureModeActive s\<rparr>]"
    and "isCaptureModeActive (snd (fetch_and_stream e r url body target s)) = isCaptureModeActive s"
    and "socket_open (snd (fetch_and_stream e r url body target s)) = socket_open s"
    and "uuid_calls (snd (fetch_and_stream e r url body target s)) = uuid_calls s"
proof -
  from assms have fw: "fetch (Str url, EvaluationPost body) s = originalFetch (Str url, EvaluationPost body) s"
    by (intro fetch_forward) (simp add: capture_eligible_def)
  note defs = fetch_and_stream_def fw split_def Let_def try_error_def try_frames_def streaming_def
    target_of_def relay_result relay_emitted relay_socket_out
  show "fst (fetch_and_stream e r url body target s) =
           (case try_error (settle e (length (network s))) of Some m \<Rightarrow> Inl m | None \<Rightarrow> Inr ())"
    by (auto simp: defs split: fetch_outcome.splits option.splits sum.splits stream_end.splits)
  show "emitted (snd (fetch_and_stream e r url body target s)) =
           emitted s @ try_frames r (target_of target) (settle e (length (network s)))"
    by (simp add: defs split: fetch_outcome.splits option.splits sum.splits)
  show "socket_out (snd (fetch_and_stream e r url body target s)) =
           socket_out s @ (if socket_open s then try_frames r (target_of target) (settle e (length (network s))) else [])"
    by (simp add: defs split: fetch_outcome.splits option.splits sum.splits)
  show "network (snd (fetch_and_stream e r url body target s)) =
           network s @ [\<lparr>call_args = (Str url, EvaluationPost body), by_bridge = True,
                         capture_armed = isCaptureModeActive s\<rparr>]"
    using assms by (simp add: defs split: fetch_outcome.splits option.splits sum.splits)
  show "isCaptureModeActive (snd (fetch_and_stream e r url body target s)) = isCaptureModeActive s"
    by (simp add: defs split: fetch_outcome.splits option.splits sum.splits)
  show "socket_open (snd (fetch_and_stream e r url body target s)) = socket_open s"
    by (simp add: defs split: fetch_outcome.splits option.splits sum.splits)
  show "uuid_calls (snd (fetch_and_stream e r url body target s)) = uuid_calls s"
    by (simp add: defs split: fetch_outcome.splits option.splits sum.splits)
qed

subsection \<open>The executor on a request that passes validation\<close>

lemma executor_valid:
  assumes "session_id p = Some sid" "sid \<noteq> []" "message_templates p = Some ts" "ts \<noteq> []"
  shows "emitted (executeFetchAndStreamBack e r p s) = emitted s @ request_frames e r p s"
    and "socket_out (executeFetchAndStreamBack e r p s) =
           socket_out s @ (if socket_open s then request_frames e r p s else [])"
    and "uuid_calls (executeFetchAndStreamBack e r p s) = uuid_calls s + 3 + length ts"
    and "isApiBridgeRequest (executeFetchAndStreamBack e r p s) = False"
    and "isCaptureModeActive (executeFetchAndStreamBack e r p s) = isCaptureModeActive s"
    and "socket_open (executeFetchAndStreamBack e r p s) = socket_open s"
    and "network (executeFetchAndStreamBack e r p s) =
           network s @
             [\<lparr>call_args =
                 (Str (''/nextjs-api/stream/post-to-evaluation/'' @ sid),
                  EvaluationPost
                    \<lparr>body_id = sid, body_mode = ''battle'',
                     userMessageId = uuid_at e (uuid_calls s),
                     modelAMessageId = uuid_at e (uuid_calls s + 1),
                     modelBMessageId = uuid_at e (uuid_calls s + 2),
                     messages = fst (build_messages e sid ts (s\<lparr>uuid_calls := uuid_calls s + 3\<rparr>)),
                     modality = ''chat''\<rparr>),
               by_bridge = True, capture_armed = isCaptureModeActive s\<rparr>]"
  using assms
  by (simp_all add: executeFetchAndStreamBack_def split_def Let_def build_messages_state
        fetch_and_stream_flagged request_frames_def uuid_at_def numeral_3_eq_3
        split: option.splits sum.splits)

subsection \<open>The executor on a request that fails validation\<close>

lemma preflight_failure_eq:
  "preflight_failure r m s =
     s\<lparr>emitted := emitted s @ [(r, ErrorObj m), (r, DONE)],
       socket_out := socket_out s @ (if socket_open s then [(r, ErrorObj m), (r, DONE)] else [])\<rparr>"
  by (simp add: preflight_failure_def sendToServer_def Let_def)

lemma executor_invalid:
  assumes "invalid p"
  shows "executeFetchAndStreamBack e r p s = preflight_failure r (preflight_message p) s"
  using assms
  by (auto simp: invalid_def preflight_message_def executeFetchAndStreamBack_def
      split: option.splits)

lemma valid_or_invalid:
  "invalid p \<or> (\<exists>sid ts. session_id p = Some sid \<and> sid \<noteq> [] \<and> message_templates p = Some ts \<and> ts \<noteq> [])"
  by (cases "session_id p"; cases "message_templates p") (auto simp: invalid_def)

subsection \<open>Captures along a run of events\<close>

lemma executor_capture:
  "isCaptureModeActive (executeFetchAndStreamBack e r p s) = isCaptureModeActive s"
  "deliveries (executeFetchAndStreamBack e r p s) = deliveries s"
  using valid_or_invalid [of p]
  by (auto simp: executor_invalid preflight_failure_eq executor_valid deliveries_def is_delivery_def)

lemma fetch_page_call:
  "(\<not> capture_eligible (r, PageInit i) s \<and>
      isCaptureModeActive (snd (fetch (r, PageInit i) s)) = isCaptureModeActive s \<and>
      deliveries (snd (fetch (r, PageInit i) s)) = deliveries s)
   \<or> (capture_eligible (r, PageInit i) s \<and>
      \<not> isCaptureModeActive (snd (fetch (r, PageInit i) s)) \<and>
      length (deliveries (snd (fetch (r, PageInit i) s))) = length (deliveries s) + 1)"
proof (cases "capture_eligible (r, PageInit i) s")
  case False
  then show ?thesis
    by (simp add: fetch_forward deliveries_def is_delivery_def)
next
  case True
  then obtain sid where "retry_match (urlString (r, PageInit i)) = Some sid"
    by (auto simp: capture_eligible_def)
  with True show ?thesis
    by (simp add: fetch_capture deliveries_def is_delivery_def update_call_def)
qed

lemma sendPageSource_capture:
  "isCaptureModeActive (sendPageSource s) = isCaptureModeActive s"
  "deliveries (sendPageSource s) = deliveries s"
proof -
  have "\<not> capture_eligible (Str ''http://localhost:5102/internal/update_available_models'', PageMarkup) s"
    by (simp add: capture_eligible_def urlString_def retry_at_def)
  then show "isCaptureModeActive (sendPageSource s) = isCaptureModeActive s"
    and "deliveries (sendPageSource s) = deliveries s"
    by (simp_all add: sendPageSource_def fetch_forward deliveries_def is_delivery_def)
qed

lemma deliveries_flags [simp]:
  "deliveries (reload s) = deliveries s"
  "deliveries (s\<lparr>isCaptureModeActive := b\<rparr>) = deliveries s"
  by (simp_all add: deliveries_def reload_def)

lemma step_capture:
  assumes "\<not> activation ev"
  shows "(deliveries (step e ev s) = deliveries s \<and>
          (isCaptureModeActive (step e ev s) \<longrightarrow> isCaptureModeActive s))
       \<or> (isCaptureModeActive s \<and> \<not> isCaptureModeActive (step e ev s) \<and>
          length (deliveries (step e ev s)) = length (deliveries s) + 1)"
proof (cases ev)
  case (Receive m)
  show ?thesis
  proof (cases m)
    case Unparseable
    with Receive show ?thesis by (simp add: onmessage_def)
  next
    case (Message command request_id payload)
    have req: "deliveries (handle_request e request_id payload s) = deliveries s"
      "isCaptureModeActive (handle_request e request_id payload s) = isCaptureModeActive s"
      by (simp_all add: handle_request_def executor_capture split: option.splits)
    show ?thesis
    proof (cases command)
      case None
      with Receive Message req show ?thesis by (simp add: onmessage_def)
    next
      case (Some c)
      with assms Receive Message have "c \<noteq> ''activate_id_capture''"
        by (simp add: activation_def)
      then have "deliveries (dispatch c s) = deliveries s"
        "isCaptureModeActive (dispatch c s) \<longrightarrow> isCaptureModeActive s"
        by (simp_all add: dispatch_def sendPageSource_capture) (simp add: reload_def)
      with Receive Message Some req show ?thesis by (simp add: onmessage_def)
    qed
  qed
next
  case (PageCall r i)
  with fetch_page_call [of r i s] show ?thesis
    by (auto simp: capture_eligible_def)
next
  case (Settled outcome)
  then show ?thesis by (simp add: delivery_settled_def)
qed

lemma run_unarmed:
  assumes "\<forall>ev\<in>set evs. \<not> activation ev" "\<not> isCaptureModeActive s"
  shows "\<not> isCaptureModeActive (run e evs s) \<and> deliveries (run e evs s) = deliveries s"
  using assms
proof (induction evs arbitrary: s)
  case Nil
  then show ?case by simp
next
  case (Cons ev evs)
  from Cons.prems have "\<not> activation ev" by simp
  from step_capture [OF this, of e s] Cons.prems(2)
  have "\<not> isCaptureModeActive (step e ev s)" "deliveries (step e ev s) = deliveries s"
    by auto
  with Cons.IH [of "step e ev s"] Cons.prems(1) show ?case by simp
qed

lemma run_at_most_one:
  assumes "\<forall>ev\<in>set evs. \<not> activation ev"
  shows "length (deliveries (run e evs s)) \<le> length (deliveries s) + 1"
  using assms
proof (induction evs arbitrary: s)
  case Nil
  then show ?case by simp
next
  case (Cons ev evs)
  from Cons.prems have na: "\<not> activation ev" and rest: "\<forall>ev\<in>set evs. \<not> activation ev"
    by simp_all
  from step_capture [OF na, of e s] show ?case
  proof
    assume "deliveries (step e ev s) = deliveries s \<and>
          (isCaptureModeActive (step e ev s) \<longrightarrow> isCaptureModeActive s)"
    with Cons.IH [OF rest, of "step e ev s"] show ?thesis by simp
  next
    assume a: "isCaptureModeActive s \<and> \<not> isCaptureModeActive (step e ev s) \<and>
          length (deliveries (step e ev s)) = length (deliveries s) + 1"
    with run_unarmed [OF rest, of "step e ev s" e] show ?thesis by simp
  qed
qed

lemma filterStreamByTarget_ends_newline:
  assumes "filterStreamByTarget c t = Some f"
  shows "f \<noteq> [] \<and> last f = newline"
  using assms by (auto simp: filterStreamByTarget_def Let_def split: if_splits)

lemma forwarded_not_DONE: "f \<in> set (forwarded t cs) \<Longrightarrow> Text f \<noteq> DONE"
proof (induction cs)
  case Nil
  then show ?case by simp
next
  case (Cons c cs)
  show ?case
  proof (cases "f \<in> set (forwarded t cs)")
    case True
    with Cons.IH show ?thesis .
  next
    case False
    with Cons.prems have "filterStreamByTarget c t = Some f"
      by (auto split: option.splits if_splits)
    then have "last f = newline"
      by (simp add: filterStreamByTarget_ends_newline)
    then show ?thesis
      by (auto simp: DONE_def newline_def)
  qed
qed

lemma request_frames0:
  "request_frames env0 ''req-1'' payload0 page0 =
     [(''req-1'', Text ''b0:\"y\"\<newline>''), (''req-1'', Text ''bd:{}\<newline>''), (''req-1'', DONE)]"
  by code_simp

lemma retry_url_match: "retry_match retry_url = Some ''0a1b-2c3d''"
  by code_simp

lemma events0_no_activation: "list_all (\<lambda>ev. \<not> activation ev) events0"
  by (simp add: events0_def activation_def)

lemma capture_eligible0: "capture_eligible (Str retry_url, PageInit []) page0"
  using retry_url_match by (simp add: capture_eligible_def urlString_def page0_def retry_url_def)

subsection \<open>The identifiers of a request\<close>

lemma upt_three:
  "[n ..< n + len + 3] = n # Suc n # Suc (Suc n) # map (\<lambda>i. n + 3 + i) [0 ..< len]"
proof -
  have "[n + 3 ..< n + 3 + len] = map (\<lambda>i. n + 3 + i) [0 ..< len]"
    using map_add_upt [of "n + 3" len] by (simp add: add.commute)
  moreover have "[n ..< n + len + 3] = n # Suc n # Suc (Suc n) # [n + 3 ..< n + 3 + len]"
    by (simp add: upt_conv_Cons numeral_3_eq_3)
  ultimately show ?thesis by simp
qed

lemma uuid_at_distinct:
  assumes "\<forall>k\<in>set ks. clock e k < 2 ^ 48" "distinct ks"
  shows "distinct (map (uuid_at e) ks) = inj_on (\<lambda>k. kept (clock e k) (entropy e k)) (set ks)"
proof -
  have "inj_on (uuid_at e) (set ks) = inj_on (\<lambda>k. kept (clock e k) (entropy e k)) (set ks)"
    unfolding inj_on_def uuid_at_def using assms(1) by (auto simp: uuidv7_kept)
  with assms(2) show ?thesis
    by (simp add: distinct_map)
qed

lemma env0_kept_inj: "inj_on (\<lambda>k. kept (clock env0 k) (entropy env0 k)) K"
  by (simp add: inj_on_def kept_def env0_def)

section \<open>The claims\<close>

subsection \<open>C1: the identifiers of a request\<close>

text \<open>
  C1, as stated, says that a request that passes validation generates as many identifiers
  as it has message templates, plus two. The executor generates three more, not two: the
  user-message identifier and the identifiers of the two participant slots. For the sample
  request, with one template, the generator is called four times.
\<close>

theorem identifiers_generated_counterexample:
  "message_templates payload0 = Some [template0]
   \<and> uuid_calls (executeFetchAndStreamBack env0 ''req-1'' payload0 page0) = uuid_calls page0 + 4
   \<and> uuid_calls page0 + 4 \<noteq> uuid_calls page0 + (length [template0] + 2)"
proof -
  have h: "session_id payload0 = Some ''0a1b-2c3d''" "''0a1b-2c3d'' \<noteq> []"
    "message_templates payload0 = Some [template0]" "[template0] \<noteq> []"
    by (simp_all add: payload0_def)
  from executor_valid(3) [OF h, of env0 "''req-1''" page0] h show ?thesis
    by simp
qed

text \<open>
  C1, amended: a request that passes validation generates exactly as many identifiers as it
  has message templates, plus three, by that many calls of the generator: first the
  user-message identifier and the identifiers of the two participant slots, then one for
  each template, in order, all of them sent in the body of the call to the evaluation
  endpoint. As long as the clock readings fit 48 bits, these identifiers are pairwise
  distinct exactly when no two of the calls agree in every bit of the clock reading and of
  the random bytes that an identifier keeps.
\<close>

theorem identifiers_generated:
  assumes "session_id p = Some sid" "sid \<noteq> []" "message_templates p = Some ts" "ts \<noteq> []"
  shows "uuid_calls (executeFetchAndStreamBack e r p s) = uuid_calls s + (length ts + 3)
         \<and> (\<exists>body. network (executeFetchAndStreamBack e r p s) =
               network s @
                 [\<lparr>call_args = (Str (''/nextjs-api/stream/post-to-evaluation/'' @ sid), EvaluationPost body),
                   by_bridge = True, capture_armed = isCaptureModeActive s\<rparr>]
               \<and> userMessageId body # modelAMessageId body # modelBMessageId body # map message_id (messages body) =
                   map (uuid_at e) [uuid_calls s ..< uuid_calls s + length ts + 3])
         \<and> ((\<forall>k\<in>{uuid_calls s ..< uuid_calls s + length ts + 3}. clock e k < 2 ^ 48) \<longrightarrow>
              distinct (map (uuid_at e) [uuid_calls s ..< uuid_calls s + length ts + 3]) =
              inj_on (\<lambda>k. kept (clock e k) (entropy e k)) {uuid_calls s ..< uuid_calls s + length ts + 3})"
proof (intro conjI impI)
  show "uuid_calls (executeFetchAndStreamBack e r p s) = uuid_calls s + (length ts + 3)"
    using executor_valid(3) [OF assms, of e r s] by simp
next
  define n where "n = uuid_calls s"
  define body where "body =
     \<lparr>body_id = sid, body_mode = ''battle'',
      userMessageId = uuid_at e n,
      modelAMessageId = uuid_at e (n + 1),
      modelBMessageId = uuid_at e (n + 2),
      messages = fst (build_messages e sid ts (s\<lparr>uuid_calls := n + 3\<rparr>)),
      modality = ''chat''\<rparr>"
  have net: "network (executeFetchAndStreamBack e r p s) =
               network s @
                 [\<lparr>call_args = (Str (''/nextjs-api/stream/post-to-evaluation/'' @ sid), EvaluationPost body),
                   by_bridge = True, capture_armed = isCaptureModeActive s\<rparr>]"
    unfolding body_def n_def by (rule executor_valid(7) [OF assms])
  have "map message_id (messages body) = map (\<lambda>i. uuid_at e (n + 3 + i)) [0 ..< length ts]"
    unfolding body_def by (simp add: build_messages_ids uuid_at_def)
  then have ids: "userMessageId body # modelAMessageId body # modelBMessageId body # map message_id (messages body) =
                   map (uuid_at e) [n ..< n + length ts + 3]"
    unfolding upt_three by (simp add: body_def comp_def)
  from net ids [unfolded n_def] show "\<exists>body. network (executeFetchAndStreamBack e r p s) =
               network s @
                 [\<lparr>call_args = (Str (''/nextjs-api/stream/post-to-evaluation/'' @ sid), EvaluationPost body),
                   by_bridge = True, capture_armed = isCaptureModeActive s\<rparr>]
               \<and> userMessageId body # modelAMessageId body # modelBMessageId body # map message_id (messages body) =
                   map (uuid_at e) [uuid_calls s ..< uuid_calls s + length ts + 3]"
    by (intro exI [of _ body] conjI)
next
  assume "\<forall>k\<in>{uuid_calls s ..< uuid_calls s + length ts + 3}. clock e k < 2 ^ 48"
  then show "distinct (map (uuid_at e) [uuid_calls s ..< uuid_calls s + length ts + 3]) =
              inj_on (\<lambda>k. kept (clock e k) (entropy e k)) {uuid_calls s ..< uuid_calls s + length ts + 3}"
    using uuid_at_distinct [of "[uuid_calls s ..< uuid_calls s + length ts + 3]" e] by simp
qed

theorem identifiers_generated_witness:
  "session_id payload0 = Some ''0a1b-2c3d'' \<and> message_templates payload0 = Some [template0]
   \<and> uuid_calls (executeFetchAndStreamBack env0 ''req-1'' payload0 page0) = 4
   \<and> (\<exists>body. map call_args (network (executeFetchAndStreamBack env0 ''req-1'' payload0 page0)) =
                 [(Str ''/nextjs-api/stream/post-to-evaluation/0a1b-2c3d'', EvaluationPost body)]
         \<and> [userMessageId body, modelAMessageId body, modelBMessageId body] @ map message_id (messages body) =
             [uuid_at env0 0, uuid_at env0 1, uuid_at env0 2, uuid_at env0 3])
   \<and> distinct [uuid_at env0 0, uuid_at env0 1, uuid_at env0 2, uuid_at env0 3]"
proof -
  have h: "session_id payload0 = Some ''0a1b-2c3d''" "''0a1b-2c3d'' \<noteq> []"
    "message_templates payload0 = Some [template0]" "[template0] \<noteq> []"
    by (simp_all add: payload0_def)
  have u: "uuid_calls page0 = 0" "network page0 = []"
    by (simp_all add: page0_def)
  have r: "[0 ..< 4] = [0, 1, 2, 3::nat]"
    by (simp add: upt_rec)
  have c: "\<forall>k\<in>{0 ..< 4}. clock env0 k < 2 ^ 48"
    by (simp add: env0_def)
  note w = identifiers_generated [OF h, of env0 "''req-1''" page0]
  from w c env0_kept_inj [of "{0 ..< 4}"] have d: "distinct (map (uuid_at env0) [0 ..< 4])"
    by (simp add: u)
  from w obtain body where
    "network (executeFetchAndStreamBack env0 ''req-1'' payload0 page0) =
       [\<lparr>call_args = (Str (''/nextjs-api/stream/post-to-evaluation/'' @ ''0a1b-2c3d''), EvaluationPost body),
         by_bridge = True, capture_armed = isCaptureModeActive page0\<rparr>]"
    "userMessageId body # modelAMessageId body # modelBMessageId body # map message_id (messages body) =
       map (uuid_at env0) [0 ..< 4]"
    by (auto simp: u)
  then have "\<exists>body. map call_args (network (executeFetchAndStreamBack env0 ''req-1'' payload0 page0)) =
                 [(Str ''/nextjs-api/stream/post-to-evaluation/0a1b-2c3d'', EvaluationPost body)]
         \<and> [userMessageId body, modelAMessageId body, modelBMessageId body] @ map message_id (messages body) =
             [uuid_at env0 0, uuid_at env0 1, uuid_at env0 2, uuid_at env0 3]"
    by (intro exI [of _ body]) (simp add: r)
  with w d h show ?thesis
    by (simp add: u r)
qed

subsection \<open>C2: one terminal event for each request that passes validation\<close>

text \<open>
  C2: for a request with a non-empty \<open>session_id\<close> and a non-empty \<open>message_templates\<close>, the
  frames the executor emits are text frames, none of which is \<open>[DONE]\<close>, followed by exactly
  one terminal frame, all with the request's identifier: \<open>[DONE]\<close> when the response stream
  ends cleanly, an error frame otherwise. So there is at most one \<open>[DONE]\<close>, and an error
  frame is never followed by \<open>[DONE]\<close>.
\<close>

theorem one_terminal_event:
  assumes "session_id p = Some sid" "sid \<noteq> []" "message_templates p = Some ts" "ts \<noteq> []"
  shows "\<exists>texts d.
           emitted (executeFetchAndStreamBack e r p s) =
             emitted s @ map (\<lambda>x. (r, Text x)) texts @ [(r, d)]
           \<and> socket_out (executeFetchAndStreamBack e r p s) =
             socket_out s @ (if socket_open s then map (\<lambda>x. (r, Text x)) texts @ [(r, d)] else [])
           \<and> (d = DONE \<or> (\<exists>m. d = ErrorObj m))
           \<and> DONE \<notin> set (map Text texts)
           \<and> (d = DONE) = (\<exists>cs. streaming (settle e (length (network s))) = Some (cs, EndOfStream))"
proof -
  define outcome where "outcome = settle e (length (network s))"
  define t where "t = target_of (battle_target p)"
  have fr: "request_frames e r p s =
              try_frames r t outcome @
                (case try_error outcome of Some m \<Rightarrow> [(r, ErrorObj m)] | None \<Rightarrow> [])"
    by (simp add: request_frames_def outcome_def t_def Let_def)
  have nd: "DONE \<notin> set (map Text (forwarded t cs))" for cs
    using forwarded_not_DONE [of _ t cs] by fastforce
  have "\<exists>texts d. request_frames e r p s = map (\<lambda>x. (r, Text x)) texts @ [(r, d)]
           \<and> (d = DONE \<or> (\<exists>m. d = ErrorObj m))
           \<and> DONE \<notin> set (map Text texts)
           \<and> (d = DONE) = (\<exists>cs. streaming outcome = Some (cs, EndOfStream))"
  proof (cases "streaming outcome")
    case None
    then have "\<exists>m. try_error outcome = Some m"
      by (simp add: try_error_def split: fetch_outcome.split sum.split)
    then obtain m where "try_error outcome = Some m" ..
    with None fr have "request_frames e r p s = map (\<lambda>x. (r, Text x)) [] @ [(r, ErrorObj m)]"
      by (simp add: try_frames_def)
    with None show ?thesis
      by (intro exI [of _ "[]"] exI [of _ "ErrorObj m"]) (simp add: DONE_def)
  next
    case (Some body)
    obtain cs ending where body: "body = (cs, ending)" by (cases body)
    show ?thesis
    proof (cases ending)
      case EndOfStream
      with Some body fr have "request_frames e r p s = map (\<lambda>x. (r, Text x)) (forwarded t cs) @ [(r, DONE)]"
        by (simp add: try_frames_def try_error_def closing_def)
      with Some body EndOfStream nd [of cs] show ?thesis
        by (intro exI [of _ "forwarded t cs"] exI [of _ DONE]) simp
    next
      case (ReadFailed m)
      with Some body fr have "request_frames e r p s =
             map (\<lambda>x. (r, Text x)) (forwarded t cs) @ [(r, ErrorObj (Thrown m))]"
        by (simp add: try_frames_def try_error_def closing_def)
      with Some body ReadFailed nd [of cs] show ?thesis
        by (intro exI [of _ "forwarded t cs"] exI [of _ "ErrorObj (Thrown m)"]) (simp add: DONE_def)
    qed
  qed
  then obtain texts d where
    "request_frames e r p s = map (\<lambda>x. (r, Text x)) texts @ [(r, d)]"
    "d = DONE \<or> (\<exists>m. d = ErrorObj m)"
    "DONE \<notin> set (map Text texts)"
    "(d = DONE) = (\<exists>cs. streaming outcome = Some (cs, EndOfStream))"
    by blast
  with executor_valid(1,2) [OF assms, of e r s] show ?thesis
    unfolding outcome_def by (intro exI [of _ texts] exI [of _ d]) simp
qed

theorem one_terminal_event_witness:
  "session_id payload0 = Some ''0a1b-2c3d'' \<and> message_templates payload0 = Some [template0]
   \<and> (\<exists>texts d.
      emitted (executeFetchAndStreamBack env0 ''req-1'' payload0 page0) =
        emitted page0 @ map (\<lambda>x. (''req-1'', Text x)) texts @ [(''req-1'', d)]
      \<and> socket_out (executeFetchAndStreamBack env0 ''req-1'' payload0 page0) =
        socket_out page0 @ (if socket_open page0 then map (\<lambda>x. (''req-1'', Text x)) texts @ [(''req-1'', d)] else [])
      \<and> (d = DONE \<or> (\<exists>m. d = ErrorObj m))
      \<and> DONE \<notin> set (map Text texts)
      \<and> (d = DONE) = (\<exists>cs. streaming (settle env0 (length (network page0))) = Some (cs, EndOfStream)))
   \<and> emitted (executeFetchAndStreamBack env0 ''req-1'' payload0 page0) =
       [(''req-1'', Text ''b0:\"y\"\<newline>''), (''req-1'', Text ''bd:{}\<newline>''), (''req-1'', DONE)]"
proof -
  have h: "session_id payload0 = Some ''0a1b-2c3d''" "''0a1b-2c3d'' \<noteq> []"
    "message_templates payload0 = Some [template0]" "[template0] \<noteq> []"
    by (simp_all add: payload0_def)
  have "emitted (executeFetchAndStreamBack env0 ''req-1'' payload0 page0) =
       [(''req-1'', Text ''b0:\"y\"\<newline>''), (''req-1'', Text ''bd:{}\<newline>''), (''req-1'', DONE)]"
    using executor_valid(1) [OF h, of env0 "''req-1''" page0] request_frames0
    by (simp add: page0_def)
  with one_terminal_event [OF h, of env0 "''req-1''" page0] h show ?thesis
    by blast
qed

subsection \<open>C3: what the demultiplexer returns\<close>

text \<open>
  C3, as stated, says that for every chunk and target \<open>a\<close> or \<open>b\<close> the demultiplexer
  returns exactly the records whose leading two characters are the target tag followed by
  \<open>0\<close> or \<open>d\<close> (\<^const>\<open>demux_spec\<close>). It fails on two chunks: the record \<open>b0\<close> has the two
  leading characters but no colon, and the pattern asks for the colon; the record
  \<open>a0:"b0:y"\<close> belongs to participant \<open>a\<close>, and the pattern, which is not anchored to the
  start of a record, picks up the tail of its payload.
\<close>

theorem demux_spec_counterexample:
  "filterStreamByTarget ''b0\<newline>'' ''b'' = None
   \<and> demux_spec ''b0\<newline>'' ''b'' = Some ''b0\<newline>''
   \<and> filterStreamByTarget ''a0:\"b0:y\"\<newline>'' ''b'' = Some ''b0:y\"\<newline>''
   \<and> demux_spec ''a0:\"b0:y\"\<newline>'' ''b'' = None"
  by code_simp

text \<open>
  C3, amended: for every chunk and target \<open>a\<close> or \<open>b\<close> such that every record of the chunk
  either begins with the target tag, \<open>0\<close> or \<open>d\<close>, and a colon, or does not contain that
  sequence at all, the demultiplexer returns exactly the records that begin with the target
  tag, \<open>0\<close> or \<open>d\<close>, and a colon, in their original order, joined with newlines and with a
  trailing newline added, and returns nothing when no record qualifies. In particular the
  chunk \<open>a0:"x"\<close>, \<open>b0:"y"\<close>, \<open>bd:{"z":1}\<close> (each followed by a newline) and target \<open>b\<close>
  give \<open>b0:"y"\<close>, \<open>bd:{"z":1}\<close> (each followed by a newline).
\<close>

theorem filterStreamByTarget_records:
  assumes "t = ''a'' \<or> t = ''b''"
    and "\<forall>l\<in>set (split_lines chunk). tagged t l \<or> \<not> occurs t l"
  shows "filterStreamByTarget chunk t =
           (let records = filter (tagged t) (split_lines chunk)
            in if records \<noteq> [] then Some (join [newline] records @ [newline]) else None)
         \<and> filterStreamByTarget ''a0:\"x\"\<newline>b0:\"y\"\<newline>bd:{\"z\":1}\<newline>'' ''b''
             = Some ''b0:\"y\"\<newline>bd:{\"z\":1}\<newline>''"
proof
  from assms(1) have "newline \<notin> set t"
    by (auto simp: newline_def)
  then have "match_all t chunk = filter (tagged t) (split_lines chunk)"
    using assms(2) by (rule match_all_anchored)
  then show "filterStreamByTarget chunk t =
           (let records = filter (tagged t) (split_lines chunk)
            in if records \<noteq> [] then Some (join [newline] records @ [newline]) else None)"
    by (simp add: filterStreamByTarget_def)
  show "filterStreamByTarget ''a0:\"x\"\<newline>b0:\"y\"\<newline>bd:{\"z\":1}\<newline>'' ''b''
             = Some ''b0:\"y\"\<newline>bd:{\"z\":1}\<newline>''"
    by code_simp
qed

theorem filterStreamByTarget_records_witness:
  "(''b'' = ''a'' \<or> ''b'' = ''b'')
   \<and> list_all (\<lambda>l. tagged ''b'' l \<or> \<not> occurs ''b'' l)
         (split_lines ''a0:\"x\"\<newline>b0:\"y\"\<newline>bd:{\"z\":1}\<newline>'')
   \<and> filter (tagged ''b'') (split_lines ''a0:\"x\"\<newline>b0:\"y\"\<newline>bd:{\"z\":1}\<newline>'')
        = [''b0:\"y\"'', ''bd:{\"z\":1}'']
   \<and> filterStreamByTarget ''a0:\"x\"\<newline>b0:\"y\"\<newline>bd:{\"z\":1}\<newline>'' ''b'' =
           (let records = filter (tagged ''b'') (split_lines ''a0:\"x\"\<newline>b0:\"y\"\<newline>bd:{\"z\":1}\<newline>'')
            in if records \<noteq> [] then Some (join [newline] records @ [newline]) else None)"
proof -
  have h1: "''b'' = ''a'' \<or> ''b'' = ''b''" by simp
  have h2: "list_all (\<lambda>l. tagged ''b'' l \<or> \<not> occurs ''b'' l)
              (split_lines ''a0:\"x\"\<newline>b0:\"y\"\<newline>bd:{\"z\":1}\<newline>'')"
    by code_simp
  have h3: "filter (tagged ''b'') (split_lines ''a0:\"x\"\<newline>b0:\"y\"\<newline>bd:{\"z\":1}\<newline>'')
        = [''b0:\"y\"'', ''bd:{\"z\":1}'']"
    by code_simp
  from h2 have h2': "\<forall>l\<in>set (split_lines ''a0:\"x\"\<newline>b0:\"y\"\<newline>bd:{\"z\":1}\<newline>''). tagged ''b'' l \<or> \<not> occurs ''b'' l"
    by (simp only: list_all_iff)
  from filterStreamByTarget_records [OF h1 h2'] h1 h2 h3 show ?thesis
    by blast
qed

subsection \<open>C4: a request that fails validation\<close>

text \<open>
  C4: for a request whose \<open>session_id\<close> is empty or missing, or whose \<open>message_templates\<close>
  is missing or empty, the executor emits an error frame and then \<open>[DONE]\<close>, both with the
  request's identifier, and does nothing else: the real \<^verbatim>\<open>fetch\<close> receives no call and the
  rest of the state is as before.
\<close>

theorem preflight_clean_termination:
  assumes "invalid p"
  shows "executeFetchAndStreamBack e r p s =
           s\<lparr>emitted := emitted s @ [(r, ErrorObj (preflight_message p)), (r, DONE)],
             socket_out := socket_out s @
               (if socket_open s then [(r, ErrorObj (preflight_message p)), (r, DONE)] else [])\<rparr>
         \<and> network (executeFetchAndStreamBack e r p s) = network s"
  using assms by (simp add: executor_invalid preflight_failure_eq)

theorem preflight_clean_termination_witness:
  "invalid payload_empty
   \<and> emitted (executeFetchAndStreamBack env0 ''req-1'' payload_empty page0) =
       [(''req-1'', ErrorObj MessageListEmpty), (''req-1'', DONE)]
   \<and> socket_out (executeFetchAndStreamBack env0 ''req-1'' payload_empty page0) =
       [(''req-1'', ErrorObj MessageListEmpty), (''req-1'', DONE)]
   \<and> network (executeFetchAndStreamBack env0 ''req-1'' payload_empty page0) = []
   \<and> uuid_calls (executeFetchAndStreamBack env0 ''req-1'' payload_empty page0) = 0"
proof -
  have h: "invalid payload_empty"
    by (simp add: invalid_def payload_empty_def)
  have m: "preflight_message payload_empty = MessageListEmpty"
    by (simp add: preflight_message_def payload_empty_def)
  from preflight_clean_termination [OF h, of env0 "''req-1''" page0] h m show ?thesis
    by (simp add: page0_def)
qed

subsection \<open>C5: the bridge's own calls are never captured\<close>

text \<open>
  C5: while \<^verbatim>\<open>window.isApiBridgeRequest\<close> is set, the wrapper only forwards the call: the
  capture mode stays as it is and no delivery is attempted, whatever the URL and whether or
  not the capture mode is armed.
\<close>

theorem self_initiated_not_captured:
  assumes "isApiBridgeRequest s"
  shows "fetch args s = originalFetch args s
         \<and> isCaptureModeActive (snd (fetch args s)) = isCaptureModeActive s
         \<and> network (snd (fetch args s)) =
             network s @ [\<lparr>call_args = args, by_bridge = True, capture_armed = isCaptureModeActive s\<rparr>]"
proof -
  from assms have "fetch args s = originalFetch args s"
    by (intro fetch_forward) (simp add: capture_eligible_def)
  with assms show ?thesis by simp
qed

theorem self_initiated_not_captured_witness:
  "isApiBridgeRequest page_flagged \<and> isCaptureModeActive page_flagged
   \<and> retry_match (urlString (Str retry_url, PageInit [])) = Some ''0a1b-2c3d''
   \<and> fetch (Str retry_url, PageInit []) page_flagged = originalFetch (Str retry_url, PageInit []) page_flagged
   \<and> isCaptureModeActive (snd (fetch (Str retry_url, PageInit []) page_flagged))
   \<and> network (snd (fetch (Str retry_url, PageInit []) page_flagged)) =
        [\<lparr>call_args = (Str retry_url, PageInit []), by_bridge = True, capture_armed = True\<rparr>]"
proof -
  have h: "isApiBridgeRequest page_flagged"
    by (simp add: page_flagged_def)
  from self_initiated_not_captured [OF h, of "(Str retry_url, PageInit [])"] h retry_url_match
  show ?thesis
    by (simp add: page_flagged_def page0_def urlString_def)
qed

subsection \<open>C6: at most one capture for each activation\<close>

text \<open>
  C6: a call of the page that is eligible for capture disarms the capture mode before the
  delivery is handed to the real \<^verbatim>\<open>fetch\<close> (the delivery is received with the mode already
  off), and along any later events other than the command \<open>activate_id_capture\<close>, delivery
  failures included, the mode stays off and no further delivery is made. Along any events
  without that command at most one delivery is made, and none when the mode is off. The
  command arms the mode again.
\<close>

theorem capture_once_per_activation:
  assumes "\<forall>ev\<in>set evs. \<not> activation ev"
  shows "(capture_eligible (res, PageInit i) s \<longrightarrow>
            (\<exists>sid. retry_match (urlString (res, PageInit i)) = Some sid
               \<and> network (step e (PageCall res i) s) =
                   network s @
                     [\<lparr>call_args = update_call sid, by_bridge = False, capture_armed = False\<rparr>,
                      \<lparr>call_args = (res, PageInit i), by_bridge = False, capture_armed = False\<rparr>])
            \<and> \<not> isCaptureModeActive (step e (PageCall res i) s)
            \<and> \<not> isCaptureModeActive (run e evs (step e (PageCall res i) s))
            \<and> deliveries (run e evs (step e (PageCall res i) s)) = deliveries (step e (PageCall res i) s))
         \<and> length (deliveries (run e evs s)) \<le> length (deliveries s) + 1
         \<and> (\<not> isCaptureModeActive s \<longrightarrow>
              \<not> isCaptureModeActive (run e evs s) \<and> deliveries (run e evs s) = deliveries s)
         \<and> isCaptureModeActive (step e (Receive (Message (Some ''activate_id_capture'') request_id payload)) s)"
proof (intro conjI impI)
  assume el: "capture_eligible (res, PageInit i) s"
  then obtain sid where sid: "retry_match (urlString (res, PageInit i)) = Some sid"
    by (auto simp: capture_eligible_def)
  from el have fl: "\<not> isApiBridgeRequest s"
    by (simp add: capture_eligible_def)
  from el sid fl have "network (step e (PageCall res i) s) =
                   network s @
                     [\<lparr>call_args = update_call sid, by_bridge = False, capture_armed = False\<rparr>,
                      \<lparr>call_args = (res, PageInit i), by_bridge = False, capture_armed = False\<rparr>]"
    by (simp add: fetch_capture)
  with sid show "\<exists>sid. retry_match (urlString (res, PageInit i)) = Some sid
               \<and> network (step e (PageCall res i) s) =
                   network s @
                     [\<lparr>call_args = update_call sid, by_bridge = False, capture_armed = False\<rparr>,
                      \<lparr>call_args = (res, PageInit i), by_bridge = False, capture_armed = False\<rparr>]"
    by blast
  from el sid show off: "\<not> isCaptureModeActive (step e (PageCall res i) s)"
    by (simp add: fetch_capture)
  from run_unarmed [OF assms off]
  show "\<not> isCaptureModeActive (run e evs (step e (PageCall res i) s))"
    and "deliveries (run e evs (step e (PageCall res i) s)) = deliveries (step e (PageCall res i) s)"
    by simp_all
next
  show "length (deliveries (run e evs s)) \<le> length (deliveries s) + 1"
    using assms by (rule run_at_most_one)
next
  assume "\<not> isCaptureModeActive s"
  with assms show "\<not> isCaptureModeActive (run e evs s)" "deliveries (run e evs s) = deliveries s"
    using run_unarmed by blast+
next
  show "isCaptureModeActive (step e (Receive (Message (Some ''activate_id_capture'') request_id payload)) s)"
    by (simp add: onmessage_def dispatch_def)
qed

theorem capture_once_per_activation_witness:
  "list_all (\<lambda>ev. \<not> activation ev) events0
   \<and> capture_eligible (Str retry_url, PageInit []) page0
   \<and> network (step env0 (PageCall (Str retry_url) []) page0) =
        [\<lparr>call_args = update_call ''0a1b-2c3d'', by_bridge = False, capture_armed = False\<rparr>,
         \<lparr>call_args = (Str retry_url, PageInit []), by_bridge = False, capture_armed = False\<rparr>]
   \<and> \<not> isCaptureModeActive (run env0 events0 (step env0 (PageCall (Str retry_url) []) page0))
   \<and> deliveries (run env0 events0 (step env0 (PageCall (Str retry_url) []) page0)) =
        [\<lparr>call_args = update_call ''0a1b-2c3d'', by_bridge = False, capture_armed = False\<rparr>]
   \<and> length (deliveries (run env0 events0 page0)) \<le> 1"
proof -
  have h: "\<forall>ev\<in>set events0. \<not> activation ev"
    using events0_no_activation by (simp only: list_all_iff)
  have d0: "deliveries page0 = []"
    by (simp add: deliveries_def page0_def)
  have n0: "network page0 = []"
    by (simp add: page0_def)
  note w = capture_once_per_activation [OF h, of "Str retry_url" "[]" page0 env0]
  from w capture_eligible0 retry_url_match
  have net: "network (step env0 (PageCall (Str retry_url) []) page0) =
        [\<lparr>call_args = update_call ''0a1b-2c3d'', by_bridge = False, capture_armed = False\<rparr>,
         \<lparr>call_args = (Str retry_url, PageInit []), by_bridge = False, capture_armed = False\<rparr>]"
    by (auto simp: n0 urlString_def)
  then have "deliveries (step env0 (PageCall (Str retry_url) []) page0) =
        [\<lparr>call_args = update_call ''0a1b-2c3d'', by_bridge = False, capture_armed = False\<rparr>]"
    by (simp add: deliveries_def is_delivery_def update_call_def)
  with w capture_eligible0 net d0 events0_no_activation show ?thesis
    by simp
qed

subsection \<open>C7: the wrapper is transparent\<close>

text \<open>
  C7: every call of the wrapper ends in the call of the real \<^verbatim>\<open>fetch\<close> with the same
  arguments, made in the state the page had or in that state after a capture, and the
  wrapper returns what that call returns: the promise of the last call received, whose
  arguments are the wrapper's.
\<close>

theorem fetch_transparent:
  "\<exists>s1. fetch args s = originalFetch args s1
        \<and> (s1 = s \<or> (\<exists>sid. s1 = snd (originalFetch (update_call sid) (s\<lparr>isCaptureModeActive := False\<rparr>))))
        \<and> call_args (last (network (snd (fetch args s)))) = args
        \<and> fst (fetch args s) = length (network (snd (fetch args s))) - 1"
proof (cases "capture_eligible args s")
  case False
  then have "fetch args s = originalFetch args s"
    by (rule fetch_forward)
  then show ?thesis by (intro exI [of _ s]) simp
next
  case True
  then obtain sid where sid: "retry_match (urlString args) = Some sid"
    by (auto simp: capture_eligible_def)
  define s1 where "s1 = snd (originalFetch (update_call sid) (s\<lparr>isCaptureModeActive := False\<rparr>))"
  from True sid have "fetch args s = originalFetch args s1"
    unfolding s1_def by (rule fetch_capture)
  moreover have "\<exists>sid. s1 = snd (originalFetch (update_call sid) (s\<lparr>isCaptureModeActive := False\<rparr>))"
    unfolding s1_def by blast
  ultimately show ?thesis by (intro exI [of _ s1]) simp
qed

subsection \<open>C8: the flag of the bridge's own calls\<close>

text \<open>
  C8: for a request that passes validation, the call to the evaluation endpoint is received
  by the real \<^verbatim>\<open>fetch\<close> with \<^verbatim>\<open>window.isApiBridgeRequest\<close> set, and the flag is clear when
  the executor has finished, whatever the outcome of the call; the capture mode is left as
  it was.
\<close>

theorem flag_set_and_released:
  assumes "session_id p = Some sid" "sid \<noteq> []" "message_templates p = Some ts" "ts \<noteq> []"
  shows "\<not> isApiBridgeRequest (executeFetchAndStreamBack e r p s)
         \<and> (\<exists>body. network (executeFetchAndStreamBack e r p s) =
               network s @
                 [\<lparr>call_args = (Str (''/nextjs-api/stream/post-to-evaluation/'' @ sid), EvaluationPost body),
                   by_bridge = True, capture_armed = isCaptureModeActive s\<rparr>])
         \<and> isCaptureModeActive (executeFetchAndStreamBack e r p s) = isCaptureModeActive s"
  using executor_valid(4,5,7) [OF assms, of e r s] by simp

theorem flag_set_and_released_witness:
  "session_id payload0 = Some ''0a1b-2c3d'' \<and> message_templates payload0 = Some [template0]
   \<and> \<not> isApiBridgeRequest (executeFetchAndStreamBack env0 ''req-1'' payload0 page0)
   \<and> \<not> isApiBridgeRequest (executeFetchAndStreamBack env_rejected ''req-1'' payload0 page0)
   \<and> \<not> isApiBridgeRequest (executeFetchAndStreamBack env_bad_status ''req-1'' payload0 page0)
   \<and> map by_bridge (network (executeFetchAndStreamBack env_rejected ''req-1'' payload0 page0)) = [True]
   \<and> emitted (executeFetchAndStreamBack env_rejected ''req-1'' payload0 page0) =
        [(''req-1'', ErrorObj (Thrown ''Failed to fetch''))]
   \<and> emitted (executeFetchAndStreamBack env_bad_status ''req-1'' payload0 page0) =
        [(''req-1'', ErrorObj (BadResponse 500 ''oops''))]"
proof -
  have h: "session_id payload0 = Some ''0a1b-2c3d''" "''0a1b-2c3d'' \<noteq> []"
    "message_templates payload0 = Some [template0]" "[template0] \<noteq> []"
    by (simp_all add: payload0_def)
  have e1: "request_frames env_rejected ''req-1'' payload0 page0 = [(''req-1'', ErrorObj (Thrown ''Failed to fetch''))]"
    by (simp add: request_frames_def env_rejected_def try_frames_def try_error_def streaming_def)
  have e2: "request_frames env_bad_status ''req-1'' payload0 page0 = [(''req-1'', ErrorObj (BadResponse 500 ''oops''))]"
    by (simp add: request_frames_def env_bad_status_def try_frames_def try_error_def streaming_def)
  from flag_set_and_released [OF h, of env0 "''req-1''" page0]
    flag_set_and_released [OF h, of env_rejected "''req-1''" page0]
    flag_set_and_released [OF h, of env_bad_status "''req-1''" page0]
    executor_valid(1) [OF h, of env_rejected "''req-1''" page0]
    executor_valid(1) [OF h, of env_bad_status "''req-1''" page0]
    h e1 e2
  show ?thesis
    by (auto simp: page0_def)
qed

subsection \<open>C9: determinism, idempotence, and the other participant's records\<close>

text \<open>
  C9 holds in its first two parts: the model is a function of the chunk and the target, and
  \<open>filterStreamByTarget_idempotent\<close> shows that filtering an output again returns it
  unchanged. Its third part fails in the code: the chunk below holds a single record, tagged
  \<open>b\<close>, whose payload contains \<open>a0:\<close>; with target \<open>a\<close> the demultiplexer returns the tail
  of that payload instead of nothing.
\<close>

theorem filterStreamByTarget_foreign_record:
  "split_lines ''b0:\"a0:x\"\<newline>'' = [''b0:\"a0:x\"'', []]
   \<and> tagged ''b'' ''b0:\"a0:x\"'' \<and> \<not> tagged ''a'' ''b0:\"a0:x\"''
   \<and> filterStreamByTarget ''b0:\"a0:x\"\<newline>'' ''a'' = Some ''a0:x\"\<newline>''
   \<and> filterStreamByTarget ''b0:\"a0:x\"\<newline>'' ''b'' = Some ''b0:\"a0:x\"\<newline>''"
  by code_simp

subsection \<open>C10: matching is not anchored to the start of a record\<close>

text \<open>
  C10: there is a chunk whose only record begins with the tag of participant \<open>a\<close>, with the
  sequence \<open>b0:\<close> in the middle of it, from which the demultiplexer, asked for \<open>b\<close>,
  extracts the text from that occurrence to the end of the line.
\<close>

theorem filterStreamByTarget_unanchored:
  "\<exists>chunk pre m. split_lines chunk = [pre @ m, []] \<and> pre \<noteq> [] \<and> \<not> tagged ''b'' (pre @ m)
     \<and> tagged ''a'' (pre @ m) \<and> tagged ''b'' m
     \<and> filterStreamByTarget chunk ''b'' = Some (m @ [newline])"
proof -
  have "split_lines ''a0:\"b0:y\"\<newline>'' = [''a0:\"'' @ ''b0:y\"'', []] \<and> ''a0:\"'' \<noteq> [] \<and> \<not> tagged ''b'' (''a0:\"'' @ ''b0:y\"'')
     \<and> tagged ''a'' (''a0:\"'' @ ''b0:y\"'') \<and> tagged ''b'' ''b0:y\"''
     \<and> filterStreamByTarget ''a0:\"b0:y\"\<newline>'' ''b'' = Some (''b0:y\"'' @ [newline])"
    by code_simp
  then show ?thesis by blast
qed

end
